theory Spec2Isabelle
  imports Main "HOL-Library.Word" "HOL-Library.Signed_Division" "HOL-Library.Sublist"
begin

section \<open>Go runtime: byte slices over a store of backing arrays\<close>

text \<open>
  A Go slice value is a header (pointer to a backing array, length, capacity); the header is
  copied when a slice is passed to a function, the backing array is shared. The client only
  ever re-slices from index 0 (\<open>c.buffer[:0]\<close>, \<open>c.buffer[:n-1]\<close>), so a header here is
  the address of its array together with length and capacity. The store maps addresses to
  array contents and knows the next unused address. Running out of memory is not modelled.
\<close>

record slice =
  base :: nat
  slen :: nat
  scap :: nat

record store =
  arrays :: "nat \<Rightarrow> string"
  fresh :: nat

text \<open>
  What the Go standard library and runtime contribute, as parameters: the capacity the
  runtime picks when \<open>append\<close> has to reallocate (from the old capacity and the needed length),
  \<open>strconv.FormatFloat(v, 'f', -1, 64)\<close> on the bit pattern of a float64, and whether
  \<open>net.Dial("udp", addr)\<close> succeeds.
\<close>

record goenv =
  growslice :: "nat \<Rightarrow> nat \<Rightarrow> nat"
  FormatFloat :: "64 word \<Rightarrow> string"
  Dial :: "string \<Rightarrow> bool"

definition bytes_of :: "slice \<Rightarrow> store \<Rightarrow> string" where
  "bytes_of s m = take (slen s) (arrays m (base s))"

definition write_at :: "string \<Rightarrow> nat \<Rightarrow> string \<Rightarrow> string" where
  "write_at arr i bs = take i arr @ bs @ drop (i + length bs) arr"

text \<open>\<open>make([]byte, 0, n)\<close>: a zeroed array of \<open>n\<close> bytes at a new address.\<close>

definition make_bytes :: "nat \<Rightarrow> store \<Rightarrow> slice \<times> store" where
  "make_bytes n m =
     (\<lparr>base = fresh m, slen = 0, scap = n\<rparr>,
      m\<lparr>arrays := (arrays m)(fresh m := replicate n (CHR 0x00)), fresh := Suc (fresh m)\<rparr>)"

text \<open>
  \<open>append(s, bs...)\<close>: within capacity the bytes are written into the shared array behind the
  current length and only the returned header is longer; otherwise the old contents and the
  new bytes go to a new array, whose capacity is at least the needed length.
\<close>

definition go_append :: "goenv \<Rightarrow> slice \<Rightarrow> string \<Rightarrow> store \<Rightarrow> slice \<times> store" where
  "go_append rt s bs m =
     (let need = slen s + length bs in
      if need \<le> scap s then
        (s\<lparr>slen := need\<rparr>,
         m\<lparr>arrays := (arrays m)(base s := write_at (arrays m (base s)) (slen s) bs)\<rparr>)
      else
        (let c = max need (growslice rt (scap s) need) in
         (\<lparr>base = fresh m, slen = need, scap = c\<rparr>,
          m\<lparr>arrays := (arrays m)(fresh m :=
                 bytes_of s m @ bs @ replicate (c - need) (CHR 0x00)),
            fresh := Suc (fresh m)\<rparr>)))"

text \<open>A header is well formed in a store when its array exists and is as long as the capacity.\<close>

definition wf_slice :: "slice \<Rightarrow> store \<Rightarrow> bool" where
  "wf_slice s m \<longleftrightarrow> slen s \<le> scap s \<and> length (arrays m (base s)) = scap s \<and> base s < fresh m"

section \<open>The client (client.go)\<close>

record Tag =
  Key :: string
  Value :: string

text \<open>
  \<open>serializeTagsTo\<close> (client.go 174-181). The parameter \<open>buffer\<close> is a local copy of the
  caller's header; the loop reassigns that local and the function returns nothing. The loop
  state is the local header and the store; the function itself yields only the store.
\<close>

fun serializeTagsTo_loop :: "goenv \<Rightarrow> slice \<Rightarrow> Tag list \<Rightarrow> store \<Rightarrow> slice \<times> store" where
  "serializeTagsTo_loop rt buffer [] m = (buffer, m)"
| "serializeTagsTo_loop rt buffer (tag # rest) m =
     (let (buffer, m) = go_append rt buffer '';'' m;
          (buffer, m) = go_append rt buffer (Key tag) m;
          (buffer, m) = go_append rt buffer ''='' m;
          (buffer, m) = go_append rt buffer (Value tag) m
      in serializeTagsTo_loop rt buffer rest m)"

definition serializeTagsTo :: "goenv \<Rightarrow> slice \<Rightarrow> Tag list \<Rightarrow> store \<Rightarrow> store" where
  "serializeTagsTo rt buffer tgs m = snd (serializeTagsTo_loop rt buffer tgs m)"


text \<open>
  The \<open>Client\<close> struct (client.go 37-49). \<open>flushChan\<close> is the number of signals queued in
  the channel made by \<open>make(chan struct{}, 1)\<close>; \<open>quitChan\<close> tells whether the unbuffered
  quit channel has been closed; \<open>wg\<close> is the counter of the wait group; \<open>errorHandler\<close>
  tells whether a handler is set (not nil). \<open>prefix\<close> is never written after construction and
  is kept as its bytes. The connection is represented by what it has been asked to do, in the
  fields of \<open>world\<close>.
\<close>

record Client =
  buffer :: slice
  maxBufferSize :: "64 word"
  flushInterval :: "64 word"
  flushChan :: nat
  quitChan :: bool
  wg :: nat
  errorHandler :: bool
  prefix :: string
  tags :: slice

text \<open>
  The background goroutine of \<open>startBackgroundFlusher\<close> is at its \<open>select\<close>, or inside
  \<open>flushMetrics\<close> between \<open>bufferLock.Unlock()\<close> and \<open>conn.Write(data)\<close> (holding \<open>data\<close>
  and whether it came there from the quit case), or has returned.
\<close>

datatype bgstate = AtSelect | Writing slice bool | Exited

text \<open>
  The client in its surroundings: the store, the background goroutine, the byte blocks handed
  to \<open>conn.Write\<close> so far (in order), the number of calls of the error handler, whether
  \<open>conn.Close\<close> was called and whether \<open>Close\<close> has returned. \<open>flushRequests\<close> counts the
  calls of \<open>requestFlush\<close>; the code has no such counter, it only makes the calls observable.
\<close>

record world = Client +
  mem :: store
  bg :: bgstate
  written :: "string list"
  handled :: nat
  connClosed :: bool
  closeReturned :: bool
  flushRequests :: nat

definition flushChanCap :: nat where
  "flushChanCap = 1"

text \<open>
  \<open>requestFlush\<close> (client.go 121-129): the send case of the \<open>select\<close> is taken when the
  channel has room, the \<open>default\<close> case otherwise.
\<close>

definition requestFlush :: "world \<Rightarrow> world" where
  "requestFlush w =
     (let w = w\<lparr>flushRequests := Suc (flushRequests w)\<rparr> in
      if flushChan w < flushChanCap then w\<lparr>flushChan := Suc (flushChan w)\<rparr> else w)"

text \<open>\<open>c.buffer = append(c.buffer, bs...)\<close>\<close>

definition buffer_append :: "goenv \<Rightarrow> string \<Rightarrow> world \<Rightarrow> world" where
  "buffer_append rt bs w =
     (let (s, m) = go_append rt (buffer w) bs (mem w) in w\<lparr>buffer := s, mem := m\<rparr>)"

text \<open>\<open>send\<close> (client.go 132-150); the whole body runs with \<open>bufferLock\<close> held.\<close>

definition send :: "goenv \<Rightarrow> string \<Rightarrow> string \<Rightarrow> string \<Rightarrow> Tag list \<Rightarrow> world \<Rightarrow> world" where
  "send rt key val mt tgs w =
     (let w = buffer_append rt (prefix w) w;
          w = buffer_append rt key w;
          w = buffer_append rt '':'' w;
          w = buffer_append rt val w;
          w = buffer_append rt (bytes_of (tags w) (mem w)) w;
          w = w\<lparr>mem := serializeTagsTo rt (buffer w) tgs (mem w)\<rparr>;
          w = buffer_append rt ''|'' w;
          w = buffer_append rt mt w;
          w = buffer_append rt [CHR 0x0A] w
      in if sint (maxBufferSize w) \<le> int (slen (buffer w)) then requestFlush w else w)"

text \<open>
  \<open>flushMetrics\<close> (client.go 153-171) in its two parts: the part under the lock (154-165),
  which yields \<open>data\<close> unless the buffer is empty, and the write with its error handling
  (167-170). The lock is released between the two, so callers may run \<open>send\<close> in between;
  \<open>data\<close> is a header on the buffer's own array. \<open>err\<close> tells whether \<open>conn.Write\<close> fails;
  the bytes it is given are those the header \<open>data\<close> shows in the store at that moment.
\<close>

definition flushMetrics_locked :: "world \<Rightarrow> slice option \<times> world" where
  "flushMetrics_locked w =
     (let n = slen (buffer w) in
      if n = 0 then (None, w)
      else (Some ((buffer w)\<lparr>slen := n - 1\<rparr>), w\<lparr>buffer := (buffer w)\<lparr>slen := 0\<rparr>\<rparr>))"

definition conn_Write :: "bool \<Rightarrow> slice \<Rightarrow> world \<Rightarrow> world" where
  "conn_Write err data w =
     (let w = w\<lparr>written := written w @ [bytes_of data (mem w)]\<rparr> in
      if err \<and> errorHandler w then w\<lparr>handled := Suc (handled w)\<rparr> else w)"

text \<open>
  \<open>strconv.FormatInt(v, 10)\<close> on an int64: base 10, no leading zeros, a minus sign for
  negative values.
\<close>

definition digit_char :: "nat \<Rightarrow> char" where
  "digit_char d = ''0123456789'' ! d"

fun digits10 :: "nat \<Rightarrow> string" where
  "digits10 n = (if n < 10 then [digit_char n] else digits10 (n div 10) @ [digit_char (n mod 10)])"

definition FormatInt :: "64 word \<Rightarrow> string" where
  "FormatInt v =
     (if sint v < 0 then CHR ''-'' # digits10 (nat (- sint v)) else digits10 (nat (sint v)))"

text \<open>
  \<open>Duration.Milliseconds\<close>: a duration is an int64 of nanoseconds, and the method is
  \<open>int64(d) / 1e6\<close>; Go's \<open>/\<close> truncates towards zero (\<open>sdiv\<close> on \<open>int\<close>).
\<close>

definition Milliseconds :: "64 word \<Rightarrow> 64 word" where
  "Milliseconds d = word_of_int (sint d sdiv 1000000)"

text \<open>\<open>Count\<close>, \<open>Increment\<close>, \<open>Gauge\<close>, \<open>Timing\<close> (client.go 184-205).\<close>

definition Count :: "goenv \<Rightarrow> string \<Rightarrow> 64 word \<Rightarrow> Tag list \<Rightarrow> world \<Rightarrow> world" where
  "Count rt key v tgs w = (if v = 0 then w else send rt key (FormatInt v) ''c'' tgs w)"

definition Increment :: "goenv \<Rightarrow> string \<Rightarrow> Tag list \<Rightarrow> world \<Rightarrow> world" where
  "Increment rt key tgs w = Count rt key 1 tgs w"

definition Gauge :: "goenv \<Rightarrow> string \<Rightarrow> 64 word \<Rightarrow> Tag list \<Rightarrow> world \<Rightarrow> world" where
  "Gauge rt key v tgs w = send rt key (FormatFloat rt v) ''g'' tgs w"

definition Timing :: "goenv \<Rightarrow> string \<Rightarrow> 64 word \<Rightarrow> Tag list \<Rightarrow> world \<Rightarrow> world" where
  "Timing rt key d tgs w = send rt key (FormatInt (Milliseconds d)) ''ms'' tgs w"

section \<open>Configuration and construction (options.go, client.go 51-90)\<close>

record options =
  o_host :: string
  o_port :: "64 word"
  o_maxBufferSize :: "64 word"
  o_flushInterval :: "64 word"
  o_errorHandler :: bool
  o_prefix :: string
  o_tags :: "Tag list"

type_synonym Option = "options \<Rightarrow> options"

definition TrimSuffix :: "string \<Rightarrow> string \<Rightarrow> string" where
  "TrimSuffix s suf = (if suffix suf s then take (length s - length suf) s else s)"

definition Host :: "string \<Rightarrow> Option" where
  "Host h opt = opt\<lparr>o_host := h\<rparr>"

definition Port :: "64 word \<Rightarrow> Option" where
  "Port p opt = opt\<lparr>o_port := p\<rparr>"

definition MaxBufferSize :: "64 word \<Rightarrow> Option" where
  "MaxBufferSize n opt = opt\<lparr>o_maxBufferSize := n\<rparr>"

definition FlushInterval :: "64 word \<Rightarrow> Option" where
  "FlushInterval d opt = opt\<lparr>o_flushInterval := d\<rparr>"

definition ErrorHandler :: "bool \<Rightarrow> Option" where
  "ErrorHandler h opt = opt\<lparr>o_errorHandler := h\<rparr>"

definition Prefix :: "string \<Rightarrow> Option" where
  "Prefix p opt = opt\<lparr>o_prefix := TrimSuffix p ''.'' @ ''.''\<rparr>"

definition Tags :: "Tag list \<Rightarrow> Option" where
  "Tags ts opt = opt\<lparr>o_tags := ts\<rparr>"

definition defaultPort :: "64 word" where
  "defaultPort = 8125"

definition defaultMaxBufferSize :: "64 word" where
  "defaultMaxBufferSize = 512"

definition defaultFlushInterval :: "64 word" where
  "defaultFlushInterval = 100 * 1000000"

definition bufferCapFactor :: "64 word" where
  "bufferCapFactor = 2"

datatype error =
  DialError | PanicMakeslice | PanicNewTicker | PanicCloseOfClosedChannel | NotEnabled

definition empty_store :: store where
  "empty_store = \<lparr>arrays = (\<lambda>_. []), fresh = 0\<rparr>"

text \<open>
  \<open>New\<close> (client.go 52-90); \<open>configure\<close> is its loop over the options, from the defaults
  (53-65). \<open>make\<close> panics on a negative capacity, and
  \<open>o.maxBufferSize*bufferCapFactor\<close> is an int product that wraps around. The background
  goroutine is started last (\<open>wg.Add(1)\<close>, then the goroutine at its \<open>select\<close>); its
  \<open>time.NewTicker(c.flushInterval)\<close> panics on an interval that is not positive, which ends
  the program, and counts here as a construction that fails.
\<close>

definition configure :: "Option list \<Rightarrow> options" where
  "configure opts =
     fold (\<lambda>f acc. f acc) opts
       \<lparr>o_host = [], o_port = defaultPort, o_maxBufferSize = defaultMaxBufferSize,
        o_flushInterval = defaultFlushInterval, o_errorHandler = False,
        o_prefix = [], o_tags = []\<rparr>"

definition New :: "goenv \<Rightarrow> Option list \<Rightarrow> error + world" where
  "New rt opts =
     (let opt = configure opts
      in if \<not> Dial rt (o_host opt @ '':'' @ FormatInt (o_port opt)) then Inl DialError
         else if sint (o_maxBufferSize opt * bufferCapFactor) < 0 then Inl PanicMakeslice
         else if sint (o_maxBufferSize opt) < 0 then Inl PanicMakeslice
         else if sint (o_flushInterval opt) \<le> 0 then Inl PanicNewTicker
         else
           (let (b, m) = make_bytes (nat (sint (o_maxBufferSize opt * bufferCapFactor))) empty_store;
                (t, m) = make_bytes (nat (sint (o_maxBufferSize opt))) m;
                m = serializeTagsTo rt t (o_tags opt) m
            in Inr \<lparr>buffer = b, maxBufferSize = o_maxBufferSize opt,
                    flushInterval = o_flushInterval opt, flushChan = 0, quitChan = False,
                    wg = 1, errorHandler = o_errorHandler opt, prefix = o_prefix opt,
                    tags = t, mem = m, bg = AtSelect, written = [], handled = 0,
                    connClosed = False, closeReturned = False, flushRequests = 0\<rparr>))"


section \<open>Shutdown and the interleaving of callers with the background goroutine\<close>

text \<open>
  \<open>Close\<close> (client.go 217-226) in its parts: \<open>close(c.quitChan)\<close>, which panics on a channel
  that is already closed; \<open>c.wg.Wait()\<close>, which lets the caller continue only when the
  counter is zero; and \<open>conn.Close()\<close> with its error handling (\<open>err\<close> tells whether it
  fails).
\<close>

definition Close_signal :: "world \<Rightarrow> error + world" where
  "Close_signal w = (if quitChan w then Inl PanicCloseOfClosedChannel else Inr (w\<lparr>quitChan := True\<rparr>))"

definition Close_finish :: "bool \<Rightarrow> world \<Rightarrow> world" where
  "Close_finish err w =
     (let w = w\<lparr>connClosed := True\<rparr>;
          w = (if err \<and> errorHandler w then w\<lparr>handled := Suc (handled w)\<rparr> else w)
      in w\<lparr>closeReturned := True\<rparr>)"

text \<open>The goroutine returns: the deferred \<open>ticker.Stop()\<close> and \<open>c.wg.Done()\<close> run.\<close>

definition bg_return :: "world \<Rightarrow> world" where
  "bg_return w = w\<lparr>bg := Exited, wg := wg w - 1\<rparr>"

text \<open>
  The atomic actions of a running client. Callers invoke the metric methods (\<open>Timer\<close> is a
  later \<open>Timing\<close> with the elapsed time) and \<open>Close\<close>; the background goroutine
  (client.go 96-117) takes one case of its \<open>select\<close> when that case is ready, and performs
  the write of a drain it has begun. \<open>send\<close> holds the lock for its whole body and the first
  part of \<open>flushMetrics\<close> holds it up to \<open>Unlock\<close>, so each is one action; the write happens
  outside the lock and is an action of its own.
\<close>

datatype action =
    Call_Count string "64 word" "Tag list"
  | Call_Increment string "Tag list"
  | Call_Gauge string "64 word" "Tag list"
  | Call_Timing string "64 word" "Tag list"
  | Call_Close
  | Return_Close bool
  | Tick
  | Recv_flushChan
  | Recv_quitChan
  | Do_Write bool

fun step :: "goenv \<Rightarrow> action \<Rightarrow> world \<Rightarrow> error + world" where
  "step rt (Call_Count key v tgs) w = Inr (Count rt key v tgs w)"
| "step rt (Call_Increment key tgs) w = Inr (Increment rt key tgs w)"
| "step rt (Call_Gauge key v tgs) w = Inr (Gauge rt key v tgs w)"
| "step rt (Call_Timing key d tgs) w = Inr (Timing rt key d tgs w)"
| "step rt Call_Close w = Close_signal w"
| "step rt (Return_Close err) w =
     (if quitChan w \<and> \<not> closeReturned w \<and> wg w = 0 then Inr (Close_finish err w)
      else Inl NotEnabled)"
| "step rt Tick w = (if bg w = AtSelect then Inr (requestFlush w) else Inl NotEnabled)"
| "step rt Recv_flushChan w =
     (if bg w = AtSelect \<and> 0 < flushChan w then
        (case flushMetrics_locked (w\<lparr>flushChan := flushChan w - 1\<rparr>) of
           (None, w') \<Rightarrow> Inr w'
         | (Some data, w') \<Rightarrow> Inr (w'\<lparr>bg := Writing data False\<rparr>))
      else Inl NotEnabled)"
| "step rt Recv_quitChan w =
     (if bg w = AtSelect \<and> quitChan w then
        (case flushMetrics_locked w of
           (None, w') \<Rightarrow> Inr (bg_return w')
         | (Some data, w') \<Rightarrow> Inr (w'\<lparr>bg := Writing data True\<rparr>))
      else Inl NotEnabled)"
| "step rt (Do_Write err) w =
     (case bg w of
        Writing data final \<Rightarrow>
          (let w' = conn_Write err data w in
           Inr (if final then bg_return w' else w'\<lparr>bg := AtSelect\<rparr>))
      | _ \<Rightarrow> Inl NotEnabled)"

fun run :: "goenv \<Rightarrow> action list \<Rightarrow> world \<Rightarrow> error + world" where
  "run rt [] w = Inr w"
| "run rt (a # as) w = (case step rt a w of Inl e \<Rightarrow> Inl e | Inr w' \<Rightarrow> run rt as w')"

fun is_call :: "action \<Rightarrow> bool" where
  "is_call (Call_Count key v tgs) = True"
| "is_call (Call_Increment key tgs) = True"
| "is_call (Call_Gauge key v tgs) = True"
| "is_call (Call_Timing key d tgs) = True"
| "is_call a = False"

fun is_return :: "action \<Rightarrow> bool" where
  "is_return (Return_Close err) = True"
| "is_return a = False"

text \<open>The metric calls of a run alone, applied in order: what the callers append.\<close>

fun calls :: "goenv \<Rightarrow> action list \<Rightarrow> world \<Rightarrow> world" where
  "calls rt [] w = w"
| "calls rt (Call_Count key v tgs # as) w = calls rt as (Count rt key v tgs w)"
| "calls rt (Call_Increment key tgs # as) w = calls rt as (Increment rt key tgs w)"
| "calls rt (Call_Gauge key v tgs # as) w = calls rt as (Gauge rt key v tgs w)"
| "calls rt (Call_Timing key d tgs # as) w = calls rt as (Timing rt key d tgs w)"
| "calls rt (a # as) w = calls rt as w"

text \<open>The goroutine has taken the quit case: it is in its final write or has returned.\<close>

fun final_phase :: "bgstate \<Rightarrow> bool" where
  "final_phase AtSelect = False"
| "final_phase (Writing data final) = final"
| "final_phase Exited = True"

section \<open>Notions used in the statements\<close>

text \<open>The wire form of tags: \<open>;key=value\<close> for each tag, in order.\<close>

definition fragment :: "Tag \<Rightarrow> string" where
  "fragment tag = Key tag @ ''='' @ Value tag"

definition render_tags :: "Tag list \<Rightarrow> string" where
  "render_tags tgs = concat (map (\<lambda>tag. CHR '';'' # fragment tag) tgs)"

text \<open>
  An append to \<open>s\<close> leaves the bytes a header \<open>t\<close> shows alone when \<open>t\<close> has another array
  or ends no later than \<open>s\<close> does.
\<close>

definition spares :: "slice \<Rightarrow> slice \<Rightarrow> bool" where
  "spares s t \<longleftrightarrow> base t \<noteq> base s \<or> slen t \<le> slen s"

text \<open>
  From header and store \<open>a\<close> to header and store \<open>b\<close> the bytes \<open>bs\<close> were appended: the new
  header shows the old bytes followed by \<open>bs\<close>, and every header the appends spare shows what
  it showed before.
\<close>

definition grows_by :: "slice \<times> store \<Rightarrow> string \<Rightarrow> slice \<times> store \<Rightarrow> bool" where
  "grows_by a bs b \<longleftrightarrow>
     (case (a, b) of ((s, m), (s', m')) \<Rightarrow>
        bytes_of s' m' = bytes_of s m @ bs \<and> wf_slice s' m' \<and> fresh m \<le> fresh m' \<and>
        (\<forall>t. wf_slice t m \<and> spares s t \<longrightarrow>
               bytes_of t m' = bytes_of t m \<and> wf_slice t m' \<and> spares s' t))"

text \<open>The two slices of a client are well formed and have different arrays.\<close>

definition wf_world :: "world \<Rightarrow> bool" where
  "wf_world w \<longleftrightarrow>
     wf_slice (buffer w) (mem w) \<and> wf_slice (tags w) (mem w) \<and> base (buffer w) \<noteq> base (tags w)"

text \<open>
  From client \<open>w\<close> to client \<open>w'\<close> the bytes \<open>bs\<close> were appended to the buffer and nothing
  else happened: only buffer and store differ, and \<open>c.tags\<close> shows what it showed.
\<close>

definition appended :: "world \<Rightarrow> string \<Rightarrow> world \<Rightarrow> bool" where
  "appended w bs w' \<longleftrightarrow>
     wf_world w' \<and> bytes_of (buffer w') (mem w') = bytes_of (buffer w) (mem w) @ bs \<and>
     bytes_of (tags w) (mem w') = bytes_of (tags w) (mem w) \<and>
     w' = w\<lparr>buffer := buffer w', mem := mem w'\<rparr>"

text \<open>
  An append of \<open>bs\<close> to the buffer within its capacity, written out: the header grows, and
  the bytes go into the buffer's array behind the old length.
\<close>

definition in_place :: "string \<Rightarrow> world \<Rightarrow> world" where
  "in_place bs w =
     w\<lparr>buffer := (buffer w)\<lparr>slen := slen (buffer w) + length bs\<rparr>,
       mem := (mem w)\<lparr>arrays := (arrays (mem w))(base (buffer w) :=
                 write_at (arrays (mem w) (base (buffer w))) (slen (buffer w)) bs)\<rparr>\<rparr>"

text \<open>The bytes the buffer shows.\<close>

definition buffered :: "world \<Rightarrow> string" where
  "buffered w = bytes_of (buffer w) (mem w)"

text \<open>
  The line \<open>send\<close> leaves in the buffer, as the theorems below establish: the bytes that
  \<open>c.tags\<close> shows stand where the default tags belong, and nothing stands for the tags of
  the call.
\<close>

definition line :: "world \<Rightarrow> string \<Rightarrow> string \<Rightarrow> string \<Rightarrow> string" where
  "line w key val mt =
     prefix w @ key @ '':'' @ val @ bytes_of (tags w) (mem w) @ ''|'' @ mt @ [CHR 0x0A]"

text \<open>
  What holds of the control state of a client however it is used: the flush channel holds at
  most what its capacity allows, the wait group counts the background goroutine until it has
  returned, \<open>Close\<close> returns only after that, and the goroutine enters its final phase
  only once the quit channel is closed.
\<close>

definition ctl_inv :: "world \<Rightarrow> bool" where
  "ctl_inv w \<longleftrightarrow>
     flushChan w \<le> flushChanCap \<and> wg w \<le> 1 \<and> (wg w = 0 \<longleftrightarrow> bg w = Exited) \<and>
     (closeReturned w \<longrightarrow> bg w = Exited) \<and> (final_phase (bg w) \<longrightarrow> quitChan w)"

text \<open>
  What holds of the memory of a client however it is used: the slices are well formed,
  \<open>c.tags\<close> has length 0, and the buffer shows a concatenation of lines as \<open>send\<close> leaves
  them.
\<close>

definition mem_inv :: "world \<Rightarrow> bool" where
  "mem_inv w \<longleftrightarrow>
     wf_world w \<and> slen (tags w) = 0 \<and>
     (\<exists>ls. buffered w = concat ls \<and>
        (\<forall>l \<in> set ls. \<exists>key val mt. l = prefix w @ key @ '':'' @ val @ ''|'' @ mt @ [CHR 0x0A]))"

text \<open>
  An environment for the concrete examples: the runtime doubles the capacity when it
  reallocates, dialling succeeds, and \<open>FormatFloat\<close> is given on \<open>+0.0\<close> only (where Go
  yields \<open>0\<close>), the one float the examples use.
\<close>

definition env0 :: goenv where
  "env0 = \<lparr>growslice = (\<lambda>c n. 2 * c),
           FormatFloat = (\<lambda>v. if v = 0 then ''0'' else ''?''),
           Dial = (\<lambda>addr. True)\<rparr>"

section \<open>Appending to slices\<close>

lemma go_append_grows:
  assumes "wf_slice s m"
  shows "grows_by (s, m) bs (go_append rt s bs m)"
  using assms
  by (auto simp: grows_by_def spares_def go_append_def Let_def bytes_of_def write_at_def wf_slice_def)

lemma grows_by_refl: "wf_slice s m \<Longrightarrow> grows_by (s, m) [] (s, m)"
  by (simp add: grows_by_def)

lemma grows_by_trans:
  assumes "grows_by a bs b" and "grows_by b cs c"
  shows "grows_by a (bs @ cs) c"
  using assms by (cases a; cases b; cases c) (auto simp: grows_by_def)

lemma grows_by_wf: "grows_by a bs b \<Longrightarrow> wf_slice (fst b) (snd b)"
  by (cases a; cases b) (auto simp: grows_by_def)

lemma serializeTagsTo_loop_grows:
  assumes "wf_slice s m"
  shows "grows_by (s, m) (render_tags tgs) (serializeTagsTo_loop rt s tgs m)"
  using assms
proof (induction tgs arbitrary: s m)
  case Nil
  then show ?case by (simp add: render_tags_def grows_by_refl)
next
  case (Cons tag rest)
  obtain s1 m1 where a1: "go_append rt s '';'' m = (s1, m1)" by force
  obtain s2 m2 where a2: "go_append rt s1 (Key tag) m1 = (s2, m2)" by force
  obtain s3 m3 where a3: "go_append rt s2 ''='' m2 = (s3, m3)" by force
  obtain s4 m4 where a4: "go_append rt s3 (Value tag) m3 = (s4, m4)" by force
  have g1: "grows_by (s, m) '';'' (s1, m1)"
    using go_append_grows [OF Cons.prems, of "'';''" rt] a1 by simp
  then have w1: "wf_slice s1 m1" using grows_by_wf by fastforce
  have g2: "grows_by (s1, m1) (Key tag) (s2, m2)"
    using go_append_grows [OF w1, of "Key tag" rt] a2 by simp
  then have w2: "wf_slice s2 m2" using grows_by_wf by fastforce
  have g3: "grows_by (s2, m2) ''='' (s3, m3)"
    using go_append_grows [OF w2, of "''=''" rt] a3 by simp
  then have w3: "wf_slice s3 m3" using grows_by_wf by fastforce
  have g4: "grows_by (s3, m3) (Value tag) (s4, m4)"
    using go_append_grows [OF w3, of "Value tag" rt] a4 by simp
  then have w4: "wf_slice s4 m4" using grows_by_wf by fastforce
  have g: "grows_by (s, m) (CHR '';'' # fragment tag) (s4, m4)"
    using grows_by_trans [OF g1 grows_by_trans [OF g2 grows_by_trans [OF g3 g4]]]
    by (simp add: fragment_def)
  have "grows_by (s, m) ((CHR '';'' # fragment tag) @ render_tags rest)
          (serializeTagsTo_loop rt s4 rest m4)"
    using grows_by_trans [OF g Cons.IH [OF w4]] .
  then show ?case
    by (simp add: a1 a2 a3 a4 render_tags_def)
qed

text \<open>What a step of \<open>send\<close> does to a client: only buffer and store change.\<close>

lemma buffer_append_props:
  assumes "wf_world w"
  shows "buffered (buffer_append rt bs w) = buffered w @ bs"
    and "wf_world (buffer_append rt bs w)"
    and "bytes_of (tags w) (mem (buffer_append rt bs w)) = bytes_of (tags w) (mem w)"
    and "buffer_append rt bs w = w\<lparr>buffer := buffer (buffer_append rt bs w), mem := mem (buffer_append rt bs w)\<rparr>"
proof -
  obtain s m where a: "go_append rt (buffer w) bs (mem w) = (s, m)" by force
  have w': "buffer_append rt bs w = w\<lparr>buffer := s, mem := m\<rparr>"
    by (simp add: buffer_append_def a)
  have g: "grows_by (buffer w, mem w) bs (s, m)"
    using go_append_grows [of "buffer w" "mem w" bs rt] assms a by (simp add: wf_world_def)
  have sp: "wf_slice (tags w) (mem w) \<and> spares (buffer w) (tags w)"
    using assms by (auto simp: wf_world_def spares_def)
  from g sp have t: "bytes_of (tags w) m = bytes_of (tags w) (mem w) \<and> wf_slice (tags w) m \<and> spares s (tags w)"
    by (simp add: grows_by_def)
  have lt: "base (tags w) < fresh (mem w)" using assms by (simp add: wf_world_def wf_slice_def)
  have hd: "base s = base (buffer w) \<or> fresh (mem w) \<le> base s"
    using a by (auto simp: go_append_def Let_def split: if_splits)
  show "buffered (buffer_append rt bs w) = buffered w @ bs"
    using g by (simp add: w' buffered_def grows_by_def)
  show "wf_world (buffer_append rt bs w)"
    using g t lt hd assms by (auto simp: w' wf_world_def grows_by_def)
  show "bytes_of (tags w) (mem (buffer_append rt bs w)) = bytes_of (tags w) (mem w)"
    using t by (simp add: w')
  show "buffer_append rt bs w = w\<lparr>buffer := buffer (buffer_append rt bs w), mem := mem (buffer_append rt bs w)\<rparr>"
    by (simp add: w')
qed

lemma serialize_in_send:
  fixes w :: world and rt :: goenv and tgs :: "Tag list"
  assumes "wf_world w"
  defines "w' \<equiv> w\<lparr>mem := serializeTagsTo rt (buffer w) tgs (mem w)\<rparr>"
  shows "buffered w' = buffered w" and "wf_world w'"
    and "bytes_of (tags w) (mem w') = bytes_of (tags w) (mem w)"
proof -
  obtain s m where a: "serializeTagsTo_loop rt (buffer w) tgs (mem w) = (s, m)" by force
  have m: "mem w' = m" by (simp add: w'_def serializeTagsTo_def a)
  have g: "grows_by (buffer w, mem w) (render_tags tgs) (s, m)"
    using serializeTagsTo_loop_grows [of "buffer w" "mem w" tgs rt] assms(1) a
    by (simp add: wf_world_def)
  have "wf_slice (tags w) (mem w) \<and> spares (buffer w) (tags w)"
    using assms(1) by (auto simp: wf_world_def spares_def)
  with g have t: "bytes_of (tags w) m = bytes_of (tags w) (mem w) \<and> wf_slice (tags w) m"
    by (simp add: grows_by_def)
  have "wf_slice (buffer w) (mem w) \<and> spares (buffer w) (buffer w)"
    using assms(1) by (auto simp: wf_world_def spares_def)
  with g have b: "bytes_of (buffer w) m = bytes_of (buffer w) (mem w) \<and> wf_slice (buffer w) m"
    by (simp add: grows_by_def)
  show "buffered w' = buffered w" using b m by (simp add: buffered_def w'_def)
  show "wf_world w'" using b t m assms(1) by (simp add: wf_world_def w'_def)
  show "bytes_of (tags w) (mem w') = bytes_of (tags w) (mem w)" using t m by simp
qed

section \<open>What \<open>send\<close> appends\<close>

lemma appended_refl: "wf_world w \<Longrightarrow> appended w [] w"
  by (simp add: appended_def)

lemma appended_trans:
  assumes "appended w bs w1" and "appended w1 cs w2"
  shows "appended w (bs @ cs) w2"
proof -
  have e1: "w1 = w\<lparr>buffer := buffer w1, mem := mem w1\<rparr>" using assms(1) by (simp add: appended_def)
  have e2: "w2 = w1\<lparr>buffer := buffer w2, mem := mem w2\<rparr>" using assms(2) by (simp add: appended_def)
  have t: "tags w1 = tags w" by (subst e1) simp
  have "w2 = w\<lparr>buffer := buffer w2, mem := mem w2\<rparr>"
    by (subst e2, subst e1) simp
  then show ?thesis
    using assms t by (simp add: appended_def)
qed

lemma appended_buffer_append:
  assumes "wf_world w"
  shows "appended w bs (buffer_append rt bs w)"
  using buffer_append_props [OF assms, of rt bs]
  by (simp add: appended_def buffered_def)

lemma appended_serialize:
  fixes w :: world
  assumes "wf_world w"
  shows "appended w [] (w\<lparr>mem := serializeTagsTo rt (buffer w) tgs (mem w)\<rparr>)"
  using serialize_in_send [OF assms, of rt tgs]
  by (simp add: appended_def buffered_def)

lemma appended_wf: "appended w bs w' \<Longrightarrow> wf_world w'"
  by (simp add: appended_def)

lemma appended_fields:
  assumes "appended w bs w'"
  shows "prefix w' = prefix w" and "tags w' = tags w" and "maxBufferSize w' = maxBufferSize w"
proof -
  have e: "w' = w\<lparr>buffer := buffer w', mem := mem w'\<rparr>" using assms by (simp add: appended_def)
  show "prefix w' = prefix w" by (subst e) simp
  show "tags w' = tags w" by (subst e) simp
  show "maxBufferSize w' = maxBufferSize w" by (subst e) simp
qed

text \<open>The body of \<open>send\<close> before the size check.\<close>

lemma send_shape:
  assumes "wf_world w"
  shows "\<exists>w'. appended w (line w key val mt) w' \<and>
           send rt key val mt tgs w =
             (if sint (maxBufferSize w) \<le> int (slen (buffer w')) then requestFlush w' else w')"
proof -
  define w1 where "w1 = buffer_append rt (prefix w) w"
  define w2 where "w2 = buffer_append rt key w1"
  define w3 where "w3 = buffer_append rt '':'' w2"
  define w4 where "w4 = buffer_append rt val w3"
  define w5 where "w5 = buffer_append rt (bytes_of (tags w4) (mem w4)) w4"
  define w6 where "w6 = w5\<lparr>mem := serializeTagsTo rt (buffer w5) tgs (mem w5)\<rparr>"
  define w7 where "w7 = buffer_append rt ''|'' w6"
  define w8 where "w8 = buffer_append rt mt w7"
  define w9 where "w9 = buffer_append rt [CHR 0x0A] w8"
  have s: "send rt key val mt tgs w =
             (if sint (maxBufferSize w9) \<le> int (slen (buffer w9)) then requestFlush w9 else w9)"
    unfolding send_def Let_def w9_def w8_def w7_def w6_def w5_def w4_def w3_def w2_def w1_def ..
  have a1: "appended w (prefix w) w1"
    unfolding w1_def by (rule appended_buffer_append [OF assms])
  have a2: "appended w1 key w2"
    unfolding w2_def by (rule appended_buffer_append [OF appended_wf [OF a1]])
  have a3: "appended w2 '':'' w3"
    unfolding w3_def by (rule appended_buffer_append [OF appended_wf [OF a2]])
  have a4: "appended w3 val w4"
    unfolding w4_def by (rule appended_buffer_append [OF appended_wf [OF a3]])
  have a04: "appended w (prefix w @ key @ '':'' @ val) w4"
    using appended_trans [OF a1 appended_trans [OF a2 appended_trans [OF a3 a4]]] .
  have t4: "bytes_of (tags w4) (mem w4) = bytes_of (tags w) (mem w)"
    using a04 appended_fields(2) [OF a04] by (simp add: appended_def)
  have a5: "appended w4 (bytes_of (tags w) (mem w)) w5"
    unfolding w5_def t4 by (rule appended_buffer_append [OF appended_wf [OF a04]])
  have a6: "appended w5 [] w6"
    unfolding w6_def by (rule appended_serialize [OF appended_wf [OF a5]])
  have a7: "appended w6 ''|'' w7"
    unfolding w7_def by (rule appended_buffer_append [OF appended_wf [OF a6]])
  have a8: "appended w7 mt w8"
    unfolding w8_def by (rule appended_buffer_append [OF appended_wf [OF a7]])
  have a9: "appended w8 [CHR 0x0A] w9"
    unfolding w9_def by (rule appended_buffer_append [OF appended_wf [OF a8]])
  have "appended w ((prefix w @ key @ '':'' @ val) @ bytes_of (tags w) (mem w) @ [] @ ''|'' @ mt @ [CHR 0x0A]) w9"
    using appended_trans [OF a04 appended_trans [OF a5 appended_trans [OF a6
            appended_trans [OF a7 appended_trans [OF a8 a9]]]]] .
  then have a: "appended w (line w key val mt) w9"
    by (simp add: line_def)
  show ?thesis
    using a s appended_fields(3) [OF a] by auto
qed

section \<open>Construction\<close>

lemma make_bytes_wf:
  assumes "make_bytes n m = (s, m')"
  shows "wf_slice s m'" and "slen s = 0" and "base s = fresh m" and "fresh m' = Suc (fresh m)"
    and "\<And>t. wf_slice t m \<Longrightarrow> wf_slice t m' \<and> bytes_of t m' = bytes_of t m"
  using assms by (auto simp: make_bytes_def wf_slice_def bytes_of_def)

lemma New_props:
  assumes "New rt opts = Inr w"
  shows "wf_world w" and "slen (buffer w) = 0" and "slen (tags w) = 0"
    and "flushChan w = 0" and "\<not> quitChan w" and "wg w = 1" and "bg w = AtSelect"
    and "written w = []" and "\<not> closeReturned w" and "flushRequests w = 0"
    and "prefix w = o_prefix (configure opts)"
    and "maxBufferSize w = o_maxBufferSize (configure opts)"
proof -
  define opt where "opt = configure opts"
  obtain b m1 where b: "make_bytes (nat (sint (o_maxBufferSize opt * bufferCapFactor))) empty_store = (b, m1)"
    by force
  obtain t m2 where t: "make_bytes (nat (sint (o_maxBufferSize opt))) m1 = (t, m2)"
    by force
  define m3 where "m3 = serializeTagsTo rt t (o_tags opt) m2"
  have w: "w = \<lparr>buffer = b, maxBufferSize = o_maxBufferSize opt,
                    flushInterval = o_flushInterval opt, flushChan = 0, quitChan = False,
                    wg = 1, errorHandler = o_errorHandler opt, prefix = o_prefix opt,
                    tags = t, mem = m3, bg = AtSelect, written = [], handled = 0,
                    connClosed = False, closeReturned = False, flushRequests = 0\<rparr>"
    using assms b t
    by (simp add: New_def Let_def opt_def [symmetric] m3_def split: if_splits)
  have wb1: "wf_slice b m1" and lb: "slen b = 0" and bb: "base b = fresh empty_store"
    and f1: "fresh m1 = Suc (fresh empty_store)"
    using make_bytes_wf [OF b] by simp_all
  have wt2: "wf_slice t m2" and lt: "slen t = 0" and bt: "base t = fresh m1"
    using make_bytes_wf [OF t] by simp_all
  have wb2: "wf_slice b m2" using make_bytes_wf(5) [OF t wb1] by simp
  have ne: "base b \<noteq> base t" using bb bt f1 by simp
  obtain s m where l: "serializeTagsTo_loop rt t (o_tags opt) m2 = (s, m)" by force
  have m3: "m3 = m" by (simp add: m3_def serializeTagsTo_def l)
  have g: "grows_by (t, m2) (render_tags (o_tags opt)) (s, m)"
    using serializeTagsTo_loop_grows [OF wt2, of "o_tags opt" rt] l by simp
  have "wf_slice b m2 \<and> spares t b" using wb2 ne by (simp add: spares_def)
  with g have wb3: "wf_slice b m" by (simp add: grows_by_def)
  have "wf_slice t m2 \<and> spares t t" using wt2 by (simp add: spares_def)
  with g have wt3: "wf_slice t m" by (simp add: grows_by_def)
  show "wf_world w" using wb3 wt3 ne by (simp add: w wf_world_def m3)
  show "slen (buffer w) = 0" by (simp add: w lb)
  show "slen (tags w) = 0" by (simp add: w lt)
  show "flushChan w = 0" "\<not> quitChan w" "wg w = 1" "bg w = AtSelect" "written w = []"
    "\<not> closeReturned w" "flushRequests w = 0"
    by (simp_all add: w)
  show "prefix w = o_prefix (configure opts)" by (simp add: w opt_def)
  show "maxBufferSize w = o_maxBufferSize (configure opts)" by (simp add: w opt_def)
qed

section \<open>Frame and effect of \<open>send\<close>\<close>

lemma buffer_append_frame:
  "\<exists>b m. buffer_append rt bs w = w\<lparr>buffer := b, mem := m\<rparr>"
  by (cases "go_append rt (buffer w) bs (mem w)") (auto simp: buffer_append_def)

lemma send_frame:
  "\<exists>b m. send rt key val mt tgs w =
     (if sint (maxBufferSize w) \<le> int (slen b) then requestFlush (w\<lparr>buffer := b, mem := m\<rparr>)
      else w\<lparr>buffer := b, mem := m\<rparr>)"
proof -
  define w1 where "w1 = buffer_append rt (prefix w) w"
  define w2 where "w2 = buffer_append rt key w1"
  define w3 where "w3 = buffer_append rt '':'' w2"
  define w4 where "w4 = buffer_append rt val w3"
  define w5 where "w5 = buffer_append rt (bytes_of (tags w4) (mem w4)) w4"
  define w6 where "w6 = w5\<lparr>mem := serializeTagsTo rt (buffer w5) tgs (mem w5)\<rparr>"
  define w7 where "w7 = buffer_append rt ''|'' w6"
  define w8 where "w8 = buffer_append rt mt w7"
  define w9 where "w9 = buffer_append rt [CHR 0x0A] w8"
  have s: "send rt key val mt tgs w =
             (if sint (maxBufferSize w9) \<le> int (slen (buffer w9)) then requestFlush w9 else w9)"
    unfolding send_def Let_def w9_def w8_def w7_def w6_def w5_def w4_def w3_def w2_def w1_def ..
  obtain b1 m1 where e1: "w1 = w\<lparr>buffer := b1, mem := m1\<rparr>"
    unfolding w1_def using buffer_append_frame by blast
  obtain b2 m2 where e2: "w2 = w\<lparr>buffer := b2, mem := m2\<rparr>"
    unfolding w2_def using buffer_append_frame [of rt key w1] by (auto simp: e1)
  obtain b3 m3 where e3: "w3 = w\<lparr>buffer := b3, mem := m3\<rparr>"
    unfolding w3_def using buffer_append_frame [of rt "'':''" w2] by (auto simp: e2)
  obtain b4 m4 where e4: "w4 = w\<lparr>buffer := b4, mem := m4\<rparr>"
    unfolding w4_def using buffer_append_frame [of rt val w3] by (auto simp: e3)
  obtain b5 m5 where e5: "w5 = w\<lparr>buffer := b5, mem := m5\<rparr>"
    unfolding w5_def using buffer_append_frame [of rt "bytes_of (tags w4) (mem w4)" w4] by (auto simp: e4)
  obtain m6 where e6: "w6 = w\<lparr>buffer := b5, mem := m6\<rparr>"
    unfolding w6_def by (simp add: e5)
  obtain b7 m7 where e7: "w7 = w\<lparr>buffer := b7, mem := m7\<rparr>"
    unfolding w7_def using buffer_append_frame [of rt "''|''" w6] by (auto simp: e6)
  obtain b8 m8 where e8: "w8 = w\<lparr>buffer := b8, mem := m8\<rparr>"
    unfolding w8_def using buffer_append_frame [of rt mt w7] by (auto simp: e7)
  obtain b9 m9 where e9: "w9 = w\<lparr>buffer := b9, mem := m9\<rparr>"
    unfolding w9_def using buffer_append_frame [of rt "[CHR 0x0A]" w8] by (auto simp: e8)
  show ?thesis
    using s by (auto simp: e9 intro!: exI [of _ b9] exI [of _ m9])
qed

lemma requestFlush_fields:
  "buffer (requestFlush w) = buffer w" "mem (requestFlush w) = mem w"
  "tags (requestFlush w) = tags w" "prefix (requestFlush w) = prefix w"
  "maxBufferSize (requestFlush w) = maxBufferSize w" "quitChan (requestFlush w) = quitChan w"
  "wg (requestFlush w) = wg w" "bg (requestFlush w) = bg w" "written (requestFlush w) = written w"
  "closeReturned (requestFlush w) = closeReturned w"
  "flushRequests (requestFlush w) = Suc (flushRequests w)"
  "flushChan (requestFlush w) = (if flushChan w < flushChanCap then Suc (flushChan w) else flushChan w)"
  by (simp_all add: requestFlush_def Let_def)

lemma send_fields:
  "tags (send rt key val mt tgs w) = tags w" "prefix (send rt key val mt tgs w) = prefix w"
  "maxBufferSize (send rt key val mt tgs w) = maxBufferSize w"
  "quitChan (send rt key val mt tgs w) = quitChan w"
  "wg (send rt key val mt tgs w) = wg w" "bg (send rt key val mt tgs w) = bg w"
  "written (send rt key val mt tgs w) = written w"
  "closeReturned (send rt key val mt tgs w) = closeReturned w"
proof -
  obtain b m where s: "send rt key val mt tgs w =
     (if sint (maxBufferSize w) \<le> int (slen b) then requestFlush (w\<lparr>buffer := b, mem := m\<rparr>)
      else w\<lparr>buffer := b, mem := m\<rparr>)"
    using send_frame by blast
  show "tags (send rt key val mt tgs w) = tags w" "prefix (send rt key val mt tgs w) = prefix w"
    "maxBufferSize (send rt key val mt tgs w) = maxBufferSize w"
    "quitChan (send rt key val mt tgs w) = quitChan w"
    "wg (send rt key val mt tgs w) = wg w" "bg (send rt key val mt tgs w) = bg w"
    "written (send rt key val mt tgs w) = written w"
    "closeReturned (send rt key val mt tgs w) = closeReturned w"
    by (simp_all add: s requestFlush_fields)
qed

lemma send_requests:
  shows "flushRequests (send rt key val mt tgs w) =
     (if sint (maxBufferSize w) \<le> int (slen (buffer (send rt key val mt tgs w)))
      then Suc (flushRequests w) else flushRequests w)"
  and "flushChan (send rt key val mt tgs w) =
     (if sint (maxBufferSize w) \<le> int (slen (buffer (send rt key val mt tgs w)))
      then flushChan (requestFlush w) else flushChan w)"
proof -
  obtain b m where s: "send rt key val mt tgs w =
     (if sint (maxBufferSize w) \<le> int (slen b) then requestFlush (w\<lparr>buffer := b, mem := m\<rparr>)
      else w\<lparr>buffer := b, mem := m\<rparr>)"
    using send_frame by blast
  have b: "buffer (send rt key val mt tgs w) = b"
    by (simp add: s requestFlush_fields)
  show "flushRequests (send rt key val mt tgs w) =
     (if sint (maxBufferSize w) \<le> int (slen (buffer (send rt key val mt tgs w)))
      then Suc (flushRequests w) else flushRequests w)"
    unfolding b by (simp add: s requestFlush_fields)
  show "flushChan (send rt key val mt tgs w) =
     (if sint (maxBufferSize w) \<le> int (slen (buffer (send rt key val mt tgs w)))
      then flushChan (requestFlush w) else flushChan w)"
    unfolding b by (simp add: s requestFlush_fields)
qed

lemma wf_slen: "wf_slice s m \<Longrightarrow> length (bytes_of s m) = slen s"
  by (simp add: wf_slice_def bytes_of_def)

lemma send_buffered:
  assumes "wf_world w"
  shows "buffered (send rt key val mt tgs w) = buffered w @ line w key val mt"
    and "wf_world (send rt key val mt tgs w)"
    and "bytes_of (tags w) (mem (send rt key val mt tgs w)) = bytes_of (tags w) (mem w)"
    and "slen (buffer (send rt key val mt tgs w)) = slen (buffer w) + length (line w key val mt)"
proof -
  obtain w' where a: "appended w (line w key val mt) w'"
    and s: "send rt key val mt tgs w =
             (if sint (maxBufferSize w) \<le> int (slen (buffer w')) then requestFlush w' else w')"
    using send_shape [OF assms] by blast
  have b: "buffer (send rt key val mt tgs w) = buffer w'" "mem (send rt key val mt tgs w) = mem w'"
    "tags (send rt key val mt tgs w) = tags w'"
    by (simp_all add: s requestFlush_fields)
  show 1: "buffered (send rt key val mt tgs w) = buffered w @ line w key val mt"
    using a by (simp add: buffered_def b appended_def)
  show 2: "wf_world (send rt key val mt tgs w)"
    using a by (simp add: wf_world_def b appended_def)
  show "bytes_of (tags w) (mem (send rt key val mt tgs w)) = bytes_of (tags w) (mem w)"
    using a by (simp add: b appended_def)
  have "length (buffered (send rt key val mt tgs w)) = slen (buffer (send rt key val mt tgs w))"
    using 2 by (simp add: buffered_def wf_world_def wf_slen)
  moreover have "length (buffered w) = slen (buffer w)"
    using assms by (simp add: buffered_def wf_world_def wf_slen)
  ultimately show "slen (buffer (send rt key val mt tgs w)) = slen (buffer w) + length (line w key val mt)"
    using 1 by simp
qed

lemma FormatInt_1: "FormatInt 1 = ''1''"
  by (simp add: FormatInt_def digit_char_def)

lemma FormatInt_0: "FormatInt 0 = ''0''"
  by (simp add: FormatInt_def digit_char_def)

lemma configure_example:
  "configure [Prefix ''app.'', Tags [\<lparr>Key = ''env'', Value = ''prod''\<rparr>]] =
     \<lparr>o_host = [], o_port = defaultPort, o_maxBufferSize = defaultMaxBufferSize,
        o_flushInterval = defaultFlushInterval, o_errorHandler = False,
        o_prefix = ''app.'', o_tags = [\<lparr>Key = ''env'', Value = ''prod''\<rparr>]\<rparr>"
  by (simp add: configure_def Prefix_def Tags_def TrimSuffix_def suffix_def)

section \<open>Metric lines: tags, zero values and the drain\<close>

text \<open>
  C1. A client configured with prefix \<open>app.\<close> and default tag \<open>env=prod\<close> is to buffer the
  line \<open>app.signup:1;env=prod|c\<close> and a line terminator on \<open>Increment("signup")\<close>. The code
  buffers \<open>app.signup:1|c\<close> and the terminator: \<open>serializeTagsTo\<close> appends to its own copy of
  the slice header, so \<open>c.tags\<close> keeps length 0 after \<open>New\<close> and the default tags never
  reach a line. Whenever dialling succeeds, construction succeeds and the buffer then holds
  exactly the line without tags.
\<close>

theorem Increment_signup_line:
  "case New rt [Prefix ''app.'', Tags [\<lparr>Key = ''env'', Value = ''prod''\<rparr>]] of
     Inl e \<Rightarrow> e = DialError
   | Inr w \<Rightarrow> buffered (Increment rt ''signup'' [] w) = ''app.signup:1|c'' @ [CHR 0x0A]"
proof (cases "New rt [Prefix ''app.'', Tags [\<lparr>Key = ''env'', Value = ''prod''\<rparr>]]")
  case (Inl e)
  then show ?thesis
    by (simp add: New_def Let_def configure_example defaultMaxBufferSize_def bufferCapFactor_def
        defaultFlushInterval_def split: if_splits prod.splits)
next
  case (Inr w)
  have wf: "wf_world w" and b: "slen (buffer w) = 0" and t: "slen (tags w) = 0"
    and p: "prefix w = ''app.''"
    using New_props [OF Inr] by (simp_all add: configure_example)
  have "buffered (Increment rt ''signup'' [] w) = buffered w @ line w ''signup'' ''1'' ''c''"
    using send_buffered(1) [OF wf] by (simp add: Increment_def Count_def FormatInt_1)
  then show ?thesis
    using Inr b t p by (simp add: buffered_def bytes_of_def line_def)
qed

lemma run_append:
  "run rt (xs @ ys) w = (case run rt xs w of Inl e \<Rightarrow> Inl e | Inr w' \<Rightarrow> run rt ys w')"
  by (induction xs arbitrary: w) (auto split: sum.splits)

lemma Milliseconds_short:
  assumes "- 1000000 < sint d" and "sint d < 1000000"
  shows "Milliseconds d = 0"
proof -
  have "\<bar>sint d\<bar> div 1000000 = 0" using assms by (simp add: div_pos_pos_trivial)
  then have "sint d sdiv 1000000 = 0" by (simp add: signed_divide_int_def)
  then show ?thesis by (simp add: Milliseconds_def)
qed

text \<open>
  C5. \<open>Count(key, 0, tags...)\<close> returns at once: the client, the store and everything around
  them are what they were, and a run with such a call in it is the run without it, so nothing
  that is ever written stems from the call.
\<close>

theorem Count_zero_no_effect:
  "Count rt key 0 tgs w = w \<and>
   run rt (pre @ Call_Count key 0 tgs # post) w = run rt (pre @ post) w"
  by (simp add: Count_def run_append split: sum.splits)

text \<open>
  C10. Only \<open>Count\<close> skips a zero. \<open>Gauge(key, 0.0)\<close> appends a line whose value is what
  \<open>FormatFloat\<close> yields for \<open>+0.0\<close>, which is \<open>0\<close> in Go; \<open>Timing(key, d)\<close> for a duration
  of less than a millisecond in either direction appends a line with value \<open>0\<close>, the division
  by \<open>1e6\<close> truncating towards zero; \<open>Count(key, 0)\<close> leaves the client as it is.
\<close>

theorem Gauge_Timing_zero_not_skipped:
  assumes "wf_world w" and "FormatFloat rt 0 = ''0''"
    and "- 1000000 < sint d" and "sint d < 1000000"
  shows "buffered (Gauge rt key 0 tgs w) = buffered w @ line w key ''0'' ''g'' \<and>
         buffered (Timing rt key d tgs w) = buffered w @ line w key ''0'' ''ms'' \<and>
         Count rt key 0 tgs w = w"
  using send_buffered(1) [OF assms(1)] assms(2) Milliseconds_short [OF assms(3,4)]
  by (simp add: Gauge_def Timing_def Count_def FormatInt_0)

lemma New_env0_small:
  "\<exists>w. New env0 [MaxBufferSize 8] = Inr w"
  by (simp add: New_def Let_def env0_def configure_def MaxBufferSize_def bufferCapFactor_def
      defaultFlushInterval_def split: prod.splits)

theorem Gauge_Timing_zero_not_skipped_witness:
  "case New env0 [MaxBufferSize 8] of
     Inl e \<Rightarrow> False
   | Inr w \<Rightarrow>
       wf_world w \<and> FormatFloat env0 0 = ''0'' \<and>
       - 1000000 < sint (999999 :: 64 word) \<and> sint (999999 :: 64 word) < 1000000 \<and>
       buffered (Gauge env0 ''load'' 0 [] w) = ''load:0|g'' @ [CHR 0x0A] \<and>
       buffered (Timing env0 ''query'' 999999 [] w) = ''query:0|ms'' @ [CHR 0x0A] \<and>
       Count env0 ''hits'' 0 [] w = w"
proof -
  obtain w where n: "New env0 [MaxBufferSize 8] = Inr w"
    using New_env0_small by blast
  have wf: "wf_world w" and b: "slen (buffer w) = 0" and t: "slen (tags w) = 0"
    and p: "prefix w = []"
    using New_props [OF n] by (simp_all add: configure_def MaxBufferSize_def)
  have f: "FormatFloat env0 0 = ''0''" by (simp add: env0_def)
  have d: "- 1000000 < sint (999999 :: 64 word)" "sint (999999 :: 64 word) < 1000000"
    by simp_all
  have "buffered (Gauge env0 ''load'' 0 [] w) = buffered w @ line w ''load'' ''0'' ''g''"
    and "buffered (Timing env0 ''query'' 999999 [] w) = buffered w @ line w ''query'' ''0'' ''ms''"
    and "Count env0 ''hits'' 0 [] w = w"
    using Gauge_Timing_zero_not_skipped [OF wf f d, of "''load'' " "[]"]
      Gauge_Timing_zero_not_skipped [OF wf f d, of "''query''" "[]"]
      Gauge_Timing_zero_not_skipped [OF wf f d, of "''hits''" "[]"]
    by simp_all
  then show ?thesis
    using n wf f d b t p by (simp add: buffered_def bytes_of_def line_def)
qed

lemma bytes_of_shorter:
  assumes "wf_slice s m"
  shows "bytes_of (s\<lparr>slen := slen s - 1\<rparr>) m = butlast (bytes_of s m)"
  using assms by (simp add: bytes_of_def wf_slice_def butlast_take)

lemma conn_Write_fields:
  "buffer (conn_Write err data w) = buffer w" "mem (conn_Write err data w) = mem w"
  "written (conn_Write err data w) = written w @ [bytes_of data (mem w)]"
  "tags (conn_Write err data w) = tags w" "prefix (conn_Write err data w) = prefix w"
  "maxBufferSize (conn_Write err data w) = maxBufferSize w"
  "quitChan (conn_Write err data w) = quitChan w" "wg (conn_Write err data w) = wg w"
  "bg (conn_Write err data w) = bg w" "flushChan (conn_Write err data w) = flushChan w"
  "closeReturned (conn_Write err data w) = closeReturned w"
  "flushRequests (conn_Write err data w) = flushRequests w"
  by (simp_all add: conn_Write_def Let_def)

lemma Increment_on_new:
  assumes "New rt opts = Inr w0"
  shows "buffered (Increment rt key tgs w0) = o_prefix (configure opts) @ key @ '':1|c'' @ [CHR 0x0A]"
    and "wf_world (Increment rt key tgs w0)"
    and "0 < slen (buffer (Increment rt key tgs w0))"
proof -
  have wf: "wf_world w0" and b: "slen (buffer w0) = 0" and t: "slen (tags w0) = 0"
    and p: "prefix w0 = o_prefix (configure opts)"
    using New_props [OF assms] by simp_all
  have i: "Increment rt key tgs w0 = send rt key ''1'' ''c'' tgs w0"
    by (simp add: Increment_def Count_def FormatInt_1)
  show "buffered (Increment rt key tgs w0) = o_prefix (configure opts) @ key @ '':1|c'' @ [CHR 0x0A]"
    using send_buffered(1) [OF wf, of rt key "''1''" "''c''" tgs] b t p
    by (simp add: i buffered_def bytes_of_def line_def)
  show "wf_world (Increment rt key tgs w0)"
    using send_buffered(2) [OF wf] by (simp add: i)
  show "0 < slen (buffer (Increment rt key tgs w0))"
    using send_buffered(4) [OF wf, of rt key "''1''" "''c''" tgs] by (simp add: i line_def)
qed

section \<open>Runs and their invariants\<close>

lemma run_invariant:
  assumes "P w" and "\<And>a u u'. P u \<Longrightarrow> step rt a u = Inr u' \<Longrightarrow> P u'"
    and "run rt as w = Inr w'"
  shows "P w'"
  using assms(1,3)
proof (induction as arbitrary: w)
  case Nil
  then show ?case by simp
next
  case (Cons a as)
  then obtain u where u: "step rt a w = Inr u" and r: "run rt as u = Inr w'"
    by (auto split: sum.splits)
  show ?case using Cons.IH [OF assms(2) [OF Cons.prems(1) u] r] .
qed

text \<open>Every metric call is the identity or one \<open>send\<close>.\<close>

lemma call_is_send:
  assumes "is_call a" and "step rt a w = Inr w'"
  shows "w' = w \<or> (\<exists>key val mt tgs. w' = send rt key val mt tgs w)"
proof (cases a)
  case (Call_Count key v tgs)
  then show ?thesis using assms(2) by (cases "v = 0") (auto simp: Count_def)
next
  case (Call_Increment key tgs)
  then show ?thesis using assms(2) by (auto simp: Increment_def Count_def)
next
  case (Call_Gauge key v tgs)
  then show ?thesis using assms(2) by (auto simp: Gauge_def)
next
  case (Call_Timing key d tgs)
  then show ?thesis using assms(2) by (auto simp: Timing_def)
qed (use assms(1) in simp_all)

lemma step_cases:
  assumes "step rt a w = Inr w'"
  obtains (call) "is_call a" "w' = w \<or> (\<exists>key val mt tgs. w' = send rt key val mt tgs w)"
  | (close) "a = Call_Close" "\<not> quitChan w" "w' = w\<lparr>quitChan := True\<rparr>"
  | (return) err where "a = Return_Close err" "quitChan w" "\<not> closeReturned w" "wg w = 0"
      "w' = Close_finish err w"
  | (tick) "a = Tick" "bg w = AtSelect" "w' = requestFlush w"
  | (flush_empty) "a = Recv_flushChan" "bg w = AtSelect" "0 < flushChan w" "slen (buffer w) = 0"
      "w' = w\<lparr>flushChan := flushChan w - 1\<rparr>"
  | (flush_data) "a = Recv_flushChan" "bg w = AtSelect" "0 < flushChan w" "0 < slen (buffer w)"
      "w' = w\<lparr>flushChan := flushChan w - 1, buffer := (buffer w)\<lparr>slen := 0\<rparr>,
               bg := Writing ((buffer w)\<lparr>slen := slen (buffer w) - 1\<rparr>) False\<rparr>"
  | (quit_empty) "a = Recv_quitChan" "bg w = AtSelect" "quitChan w" "slen (buffer w) = 0"
      "w' = bg_return w"
  | (quit_data) "a = Recv_quitChan" "bg w = AtSelect" "quitChan w" "0 < slen (buffer w)"
      "w' = w\<lparr>buffer := (buffer w)\<lparr>slen := 0\<rparr>,
               bg := Writing ((buffer w)\<lparr>slen := slen (buffer w) - 1\<rparr>) True\<rparr>"
  | (do_write) err data fin where "a = Do_Write err" "bg w = Writing data fin"
      "w' = (if fin then bg_return (conn_Write err data w) else (conn_Write err data w)\<lparr>bg := AtSelect\<rparr>)"
proof (cases a)
  case (Call_Count x11 x12 x13)
  then show ?thesis using assms call_is_send [of a rt w w'] call by simp
next
  case (Call_Increment x21 x22)
  then show ?thesis using assms call_is_send [of a rt w w'] call by simp
next
  case (Call_Gauge x31 x32 x33)
  then show ?thesis using assms call_is_send [of a rt w w'] call by simp
next
  case (Call_Timing x41 x42 x43)
  then show ?thesis using assms call_is_send [of a rt w w'] call by simp
next
  case Call_Close
  then show ?thesis using assms close by (auto simp: Close_signal_def split: if_splits)
next
  case (Return_Close err)
  then show ?thesis using assms return by (auto split: if_splits)
next
  case Tick
  then show ?thesis using assms tick by (auto split: if_splits)
next
  case Recv_flushChan
  show ?thesis
  proof (cases "slen (buffer w) = 0")
    case True
    then show ?thesis
      using assms Recv_flushChan flush_empty
      by (auto simp: flushMetrics_locked_def split: if_splits)
  next
    case False
    then show ?thesis
      using assms Recv_flushChan flush_data
      by (auto simp: flushMetrics_locked_def split: if_splits)
  qed
next
  case Recv_quitChan
  show ?thesis
  proof (cases "slen (buffer w) = 0")
    case True
    then show ?thesis
      using assms Recv_quitChan quit_empty
      by (auto simp: flushMetrics_locked_def split: if_splits)
  next
    case False
    then show ?thesis
      using assms Recv_quitChan quit_data
      by (auto simp: flushMetrics_locked_def split: if_splits)
  qed
next
  case (Do_Write err)
  then show ?thesis
    using assms do_write by (cases "bg w") (auto simp: Let_def)
qed

lemma bg_return_fields:
  "buffer (bg_return w) = buffer w" "mem (bg_return w) = mem w" "tags (bg_return w) = tags w"
  "prefix (bg_return w) = prefix w" "quitChan (bg_return w) = quitChan w"
  "flushChan (bg_return w) = flushChan w" "closeReturned (bg_return w) = closeReturned w"
  "bg (bg_return w) = Exited" "wg (bg_return w) = wg w - 1" "written (bg_return w) = written w"
  "flushRequests (bg_return w) = flushRequests w" "maxBufferSize (bg_return w) = maxBufferSize w"
  by (simp_all add: bg_return_def)

lemma Close_finish_fields:
  "buffer (Close_finish err w) = buffer w" "mem (Close_finish err w) = mem w"
  "tags (Close_finish err w) = tags w" "prefix (Close_finish err w) = prefix w"
  "quitChan (Close_finish err w) = quitChan w" "flushChan (Close_finish err w) = flushChan w"
  "closeReturned (Close_finish err w) = True" "bg (Close_finish err w) = bg w"
  "wg (Close_finish err w) = wg w" "written (Close_finish err w) = written w"
  "flushRequests (Close_finish err w) = flushRequests w"
  "maxBufferSize (Close_finish err w) = maxBufferSize w"
  by (simp_all add: Close_finish_def Let_def)

lemma ctl_inv_New:
  assumes "New rt opts = Inr w"
  shows "ctl_inv w"
  using New_props [OF assms] by (simp add: ctl_inv_def)

lemma ctl_inv_send:
  assumes "ctl_inv w"
  shows "ctl_inv (send rt key val mt tgs w)"
  using assms
  by (simp add: ctl_inv_def send_fields send_requests(2) requestFlush_fields flushChanCap_def)

lemma ctl_inv_step:
  assumes "ctl_inv w" and "step rt a w = Inr w'"
  shows "ctl_inv w'"
  using assms(2)
proof (cases rule: step_cases)
  case call
  then show ?thesis using assms(1) ctl_inv_send by auto
next
  case close
  then show ?thesis using assms(1) by (simp add: ctl_inv_def)
next
  case (return err)
  then show ?thesis using assms(1) by (simp add: ctl_inv_def Close_finish_fields)
next
  case tick
  then show ?thesis using assms(1) by (simp add: ctl_inv_def requestFlush_fields flushChanCap_def)
next
  case flush_empty
  then show ?thesis using assms(1) by (auto simp: ctl_inv_def)
next
  case flush_data
  then show ?thesis using assms(1) by (auto simp: ctl_inv_def)
next
  case quit_empty
  then show ?thesis using assms(1) by (auto simp: ctl_inv_def bg_return_fields)
next
  case quit_data
  then show ?thesis using assms(1) by (simp add: ctl_inv_def)
next
  case (do_write err data fin)
  then show ?thesis
    using assms(1) by (cases fin) (auto simp: ctl_inv_def bg_return_fields conn_Write_fields)
qed

lemma mem_inv_New:
  assumes "New rt opts = Inr w"
  shows "mem_inv w"
proof -
  have "buffered w = concat []"
    using New_props(2) [OF assms] by (simp add: buffered_def bytes_of_def)
  then show ?thesis
    using New_props(1,3) [OF assms] unfolding mem_inv_def by fastforce
qed

lemma mem_inv_send:
  assumes "mem_inv w"
  shows "mem_inv (send rt key val mt tgs w)"
proof -
  have wf: "wf_world w" and t: "slen (tags w) = 0" using assms by (simp_all add: mem_inv_def)
  obtain ls where ls: "buffered w = concat ls"
    and all: "\<forall>l \<in> set ls. \<exists>key val mt. l = prefix w @ key @ '':'' @ val @ ''|'' @ mt @ [CHR 0x0A]"
    using assms unfolding mem_inv_def by blast
  have l: "line w key val mt = prefix w @ key @ '':'' @ val @ ''|'' @ mt @ [CHR 0x0A]"
    using t by (simp add: line_def bytes_of_def)
  have "buffered (send rt key val mt tgs w) = concat (ls @ [line w key val mt])"
    using send_buffered(1) [OF wf] ls by simp
  moreover have "\<forall>l \<in> set (ls @ [line w key val mt]).
      \<exists>key val mt. l = prefix w @ key @ '':'' @ val @ ''|'' @ mt @ [CHR 0x0A]"
    using all l by auto
  ultimately have "\<exists>ls. buffered (send rt key val mt tgs w) = concat ls \<and>
      (\<forall>l \<in> set ls. \<exists>key val mt. l = prefix w @ key @ '':'' @ val @ ''|'' @ mt @ [CHR 0x0A])"
    by blast
  then show ?thesis
    using send_buffered(2) [OF wf, of rt key val mt tgs] t
    by (simp add: mem_inv_def send_fields)
qed

lemma mem_inv_frame:
  assumes "mem_inv w" and "buffer w' = buffer w" and "mem w' = mem w" and "tags w' = tags w"
    and "prefix w' = prefix w"
  shows "mem_inv w'"
  using assms by (simp add: mem_inv_def wf_world_def buffered_def)

lemma mem_inv_reset:
  assumes "mem_inv w" and "buffer w' = (buffer w)\<lparr>slen := 0\<rparr>" and "mem w' = mem w"
    and "tags w' = tags w" and "prefix w' = prefix w"
  shows "mem_inv w'"
proof -
  have "buffered w' = concat []" using assms(2) by (simp add: buffered_def bytes_of_def)
  then have "\<exists>ls. buffered w' = concat ls \<and>
      (\<forall>l \<in> set ls. \<exists>key val mt. l = prefix w' @ key @ '':'' @ val @ ''|'' @ mt @ [CHR 0x0A])"
    by fastforce
  moreover have "wf_world w'" "slen (tags w') = 0"
    using assms by (simp_all add: mem_inv_def wf_world_def wf_slice_def)
  ultimately show ?thesis by (simp add: mem_inv_def)
qed

lemma mem_inv_step:
  assumes "mem_inv w" and "step rt a w = Inr w'"
  shows "mem_inv w'"
  using assms(2)
proof (cases rule: step_cases)
  case call
  then show ?thesis using assms(1) mem_inv_send by auto
next
  case close
  then show ?thesis using mem_inv_frame [OF assms(1), of w'] by simp
next
  case (return err)
  then show ?thesis using mem_inv_frame [OF assms(1), of w'] by (simp add: Close_finish_fields)
next
  case tick
  then show ?thesis using mem_inv_frame [OF assms(1), of w'] by (simp add: requestFlush_fields)
next
  case flush_empty
  then show ?thesis using mem_inv_frame [OF assms(1), of w'] by simp
next
  case flush_data
  then show ?thesis using mem_inv_reset [OF assms(1), of w'] by simp
next
  case quit_empty
  then show ?thesis using mem_inv_frame [OF assms(1), of w'] by (simp add: bg_return_fields)
next
  case quit_data
  then show ?thesis using mem_inv_reset [OF assms(1), of w'] by simp
next
  case (do_write err data fin)
  then show ?thesis
    using mem_inv_frame [OF assms(1), of w']
    by (cases fin) (simp_all add: bg_return_fields conn_Write_fields)
qed

lemma reachable_inv:
  assumes "New rt opts = Inr w0" and "run rt as w0 = Inr w"
  shows "ctl_inv w" and "mem_inv w"
proof -
  show "ctl_inv w"
    using run_invariant [of ctl_inv w0 rt as w] ctl_inv_New [OF assms(1)] ctl_inv_step assms(2)
    by blast
  show "mem_inv w"
    using run_invariant [of mem_inv w0 rt as w] mem_inv_New [OF assms(1)] mem_inv_step assms(2)
    by blast
qed

lemma last_concat_lines:
  assumes "concat ls \<noteq> []" and "\<forall>l \<in> set ls. \<exists>xs. l = xs @ [c]"
  shows "last (concat ls) = c"
  using assms
proof (induction ls rule: rev_induct)
  case Nil
  then show ?case by simp
next
  case (snoc l ls)
  then obtain xs where "l = xs @ [c]" by auto
  then show ?case by simp
qed

text \<open>
  C9. In every state a client reaches from its construction, by metric calls, drains, writes
  and shutdown in any order, the buffer shows a concatenation of lines as \<open>send\<close> leaves
  them, each ending in the line terminator. So a non-empty buffer ends in the terminator,
  and the \<open>data\<close> of a drain followed by the terminator is what the buffer showed: the one
  byte the drain leaves out is the final terminator.
\<close>

theorem buffer_holds_whole_lines:
  assumes "New rt opts = Inr w0" and "run rt as w0 = Inr w"
  shows "(\<exists>ls. buffered w = concat ls \<and>
            (\<forall>l \<in> set ls. \<exists>key val mt.
                l = prefix w @ key @ '':'' @ val @ ''|'' @ mt @ [CHR 0x0A])) \<and>
         (buffered w \<noteq> [] \<longrightarrow> last (buffered w) = CHR 0x0A) \<and>
         (\<forall>data w'. flushMetrics_locked w = (Some data, w') \<longrightarrow>
            bytes_of data (mem w') @ [CHR 0x0A] = buffered w)"
proof -
  have inv: "mem_inv w" using reachable_inv(2) [OF assms] .
  then obtain ls where ls: "buffered w = concat ls"
    and all: "\<forall>l \<in> set ls. \<exists>key val mt. l = prefix w @ key @ '':'' @ val @ ''|'' @ mt @ [CHR 0x0A]"
    unfolding mem_inv_def by blast
  have wf: "wf_slice (buffer w) (mem w)" using inv by (simp add: mem_inv_def wf_world_def)
  have ends: "\<forall>l \<in> set ls. \<exists>xs. l = xs @ [CHR 0x0A]"
  proof
    fix l assume "l \<in> set ls"
    then obtain key val mt where "l = prefix w @ key @ '':'' @ val @ ''|'' @ mt @ [CHR 0x0A]"
      using all by blast
    then have "l = (prefix w @ key @ '':'' @ val @ ''|'' @ mt) @ [CHR 0x0A]" by simp
    then show "\<exists>xs. l = xs @ [CHR 0x0A]" by blast
  qed
  have lst: "buffered w \<noteq> [] \<longrightarrow> last (buffered w) = CHR 0x0A"
    using last_concat_lines [OF _ ends] ls by simp
  have drain: "\<forall>data w'. flushMetrics_locked w = (Some data, w') \<longrightarrow>
            bytes_of data (mem w') @ [CHR 0x0A] = buffered w"
  proof (intro allI impI)
    fix data w' assume l: "flushMetrics_locked w = (Some data, w')"
    then have pos: "0 < slen (buffer w)"
      by (auto simp: flushMetrics_locked_def Let_def split: if_splits)
    then have ne: "buffered w \<noteq> []"
      using wf by (auto simp: buffered_def bytes_of_def wf_slice_def)
    have "data = (buffer w)\<lparr>slen := slen (buffer w) - 1\<rparr>" and "mem w' = mem w"
      using l by (auto simp: flushMetrics_locked_def Let_def split: if_splits)
    then have "bytes_of data (mem w') = butlast (buffered w)"
      using bytes_of_shorter [OF wf] by (simp add: buffered_def)
    then show "bytes_of data (mem w') @ [CHR 0x0A] = buffered w"
      using lst ne append_butlast_last_id [OF ne] by simp
  qed
  show ?thesis using ls all lst drain by blast
qed

theorem buffer_holds_whole_lines_witness:
  "case New env0 [MaxBufferSize 8] of
     Inl e \<Rightarrow> False
   | Inr w0 \<Rightarrow>
       (case run env0 [Call_Increment ''a'' []] w0 of
          Inl e \<Rightarrow> False
        | Inr w \<Rightarrow> buffered w = ''a:1|c'' @ [CHR 0x0A] \<and> last (buffered w) = CHR 0x0A)"
proof -
  obtain w0 where n: "New env0 [MaxBufferSize 8] = Inr w0"
    using New_env0_small by blast
  define w where "w = Increment env0 ''a'' [] w0"
  have r: "run env0 [Call_Increment ''a'' []] w0 = Inr w" by (simp add: w_def)
  have b: "buffered w = ''a:1|c'' @ [CHR 0x0A]"
    using Increment_on_new(1) [OF n, of "''a''" "[]"]
    by (simp add: w_def configure_def MaxBufferSize_def)
  have "buffered w \<noteq> [] \<longrightarrow> last (buffered w) = CHR 0x0A"
    using buffer_holds_whole_lines [OF n r] by blast
  then show ?thesis using n r b by simp
qed

lemma quitChan_step:
  assumes "quitChan w" and "step rt a w = Inr w'"
  shows "quitChan w'"
  using assms(2)
proof (cases rule: step_cases)
  case call
  then show ?thesis using assms(1) by (auto simp: send_fields)
next
  case (do_write err data fin)
  then show ?thesis
    using assms(1) by (cases fin) (simp_all add: bg_return_fields conn_Write_fields)
qed (use assms(1) in \<open>simp_all add: Close_finish_fields requestFlush_fields bg_return_fields\<close>)

lemma quitChan_run:
  assumes "quitChan w" and "run rt as w = Inr w'"
  shows "quitChan w'"
  using run_invariant [of quitChan w rt as w'] assms quitChan_step by blast

text \<open>
  C8. Once a call of \<open>Close\<close> has closed the quit channel, whatever has happened since, a
  further call of \<open>Close\<close> panics at \<open>close(c.quitChan)\<close>: it does not go through, and it
  is not left waiting. A run with a second \<open>Close\<close> in it ends in that panic.
\<close>

theorem second_Close_panics:
  assumes "run rt (pre @ Call_Close # post) w0 = Inr w"
  shows "step rt Call_Close w = Inl PanicCloseOfClosedChannel \<and>
         run rt (pre @ Call_Close # post @ Call_Close # rest) w0 = Inl PanicCloseOfClosedChannel"
proof -
  obtain w1 where 1: "run rt pre w0 = Inr w1" and r: "run rt (Call_Close # post) w1 = Inr w"
    using assms by (auto simp: run_append split: sum.splits)
  obtain w2 where 2: "step rt Call_Close w1 = Inr w2" and 3: "run rt post w2 = Inr w"
    using r by (auto split: sum.splits)
  have "quitChan w2" using 2 by (auto simp: Close_signal_def split: if_splits)
  then have q: "quitChan w" using quitChan_run 3 by blast
  then have s: "step rt Call_Close w = Inl PanicCloseOfClosedChannel"
    by (simp add: Close_signal_def)
  have "run rt ((pre @ Call_Close # post) @ Call_Close # rest) w0 = Inl PanicCloseOfClosedChannel"
    unfolding run_append [of rt "pre @ Call_Close # post"] using assms s by simp
  then show ?thesis using s by simp
qed

theorem second_Close_panics_witness:
  "case New env0 [MaxBufferSize 8] of
     Inl e \<Rightarrow> False
   | Inr w0 \<Rightarrow>
       (case run env0 ([] @ Call_Close # [Call_Increment ''a'' []]) w0 of
          Inl e \<Rightarrow> False
        | Inr w \<Rightarrow> step env0 Call_Close w = Inl PanicCloseOfClosedChannel) \<and>
       run env0 ([] @ Call_Close # [Call_Increment ''a'' []] @ Call_Close # [Tick]) w0 =
         Inl PanicCloseOfClosedChannel"
proof -
  obtain w0 where n: "New env0 [MaxBufferSize 8] = Inr w0"
    using New_env0_small by blast
  define w where "w = Increment env0 ''a'' [] (w0\<lparr>quitChan := True\<rparr>)"
  have r: "run env0 ([] @ Call_Close # [Call_Increment ''a'' []]) w0 = Inr w"
    using New_props(5) [OF n] by (simp add: w_def Close_signal_def)
  show ?thesis
    using n r second_Close_panics [OF r, of "[Tick]"] by simp
qed

lemma requestFlush_bounded:
  assumes "flushChan w \<le> flushChanCap"
  shows "flushChan (requestFlush w) \<le> flushChanCap"
  using assms by (simp add: requestFlush_fields)

lemma requestFlush_pow_bounded:
  assumes "flushChan w \<le> flushChanCap"
  shows "flushChan ((requestFlush ^^ n) w) \<le> flushChanCap"
  using assms by (induction n) (simp_all add: requestFlush_bounded)

lemma call_enabled:
  assumes "is_call a"
  shows "step rt a w = Inr (calls rt [a] w)"
  using assms by (cases a) simp_all

lemma calls_Cons:
  assumes "is_call a"
  shows "calls rt (a # as) w = calls rt as (calls rt [a] w)"
  using assms by (cases a) simp_all

lemma calls_skip:
  assumes "\<not> is_call a"
  shows "calls rt (a # as) w = calls rt as w"
  using assms by (cases a) simp_all

text \<open>
  C7. In every state a client reaches, the flush channel holds at most one signal, and it
  still does after any number of further calls of \<open>requestFlush\<close>. \<open>requestFlush\<close> always
  returns: on an occupied slot it returns with the channel as it was (only the count of calls
  kept for observation moves), on a free slot it fills it. Every metric call, which may
  reach \<open>requestFlush\<close>, is enabled in every such state.
\<close>

theorem flushChan_holds_at_most_one:
  assumes "New rt opts = Inr w0" and "run rt as w0 = Inr w"
  shows "flushChan w \<le> 1 \<and> flushChan ((requestFlush ^^ n) w) \<le> 1 \<and>
         (flushChan w = 1 \<longrightarrow> requestFlush w = w\<lparr>flushRequests := Suc (flushRequests w)\<rparr>) \<and>
         (flushChan w = 0 \<longrightarrow> flushChan (requestFlush w) = 1) \<and>
         (\<forall>a. is_call a \<longrightarrow> (\<exists>w'. step rt a w = Inr w'))"
proof -
  have c: "flushChan w \<le> flushChanCap"
    using reachable_inv(1) [OF assms] by (simp add: ctl_inv_def)
  have 1: "flushChan w \<le> 1" using c by (simp add: flushChanCap_def)
  have 2: "flushChan ((requestFlush ^^ n) w) \<le> 1"
    using requestFlush_pow_bounded [OF c, of n] by (simp add: flushChanCap_def)
  have 3: "flushChan w = 1 \<longrightarrow> requestFlush w = w\<lparr>flushRequests := Suc (flushRequests w)\<rparr>"
    by (simp add: requestFlush_def Let_def flushChanCap_def)
  have 4: "flushChan w = 0 \<longrightarrow> flushChan (requestFlush w) = 1"
    by (simp add: requestFlush_fields flushChanCap_def)
  have 5: "\<forall>a. is_call a \<longrightarrow> (\<exists>w'. step rt a w = Inr w')"
    using call_enabled by blast
  show ?thesis using 1 2 3 4 5 by blast
qed

theorem flushChan_holds_at_most_one_witness:
  "case New env0 [MaxBufferSize 8] of
     Inl e \<Rightarrow> False
   | Inr w0 \<Rightarrow>
       (case run env0 [Tick, Tick, Tick] w0 of
          Inl e \<Rightarrow> False
        | Inr w \<Rightarrow> flushChan w = 1 \<and> flushRequests w = 3 \<and>
            flushChan ((requestFlush ^^ 5) w) \<le> 1 \<and>
            requestFlush w = w\<lparr>flushRequests := Suc (flushRequests w)\<rparr>)"
proof -
  obtain w0 where n: "New env0 [MaxBufferSize 8] = Inr w0"
    using New_env0_small by blast
  define w where "w = requestFlush (requestFlush (requestFlush w0))"
  have r: "run env0 [Tick, Tick, Tick] w0 = Inr w"
    using New_props(7) [OF n] by (simp add: w_def requestFlush_fields)
  have f: "flushChan w = 1" and q: "flushRequests w = 3"
    using New_props(4,10) [OF n] by (simp_all add: w_def requestFlush_fields flushChanCap_def)
  have "flushChan ((requestFlush ^^ 5) w) \<le> 1"
    and "flushChan w = 1 \<longrightarrow> requestFlush w = w\<lparr>flushRequests := Suc (flushRequests w)\<rparr>"
    using flushChan_holds_at_most_one [OF n r, of 5] by blast+
  then show ?thesis using n r f q by simp
qed

lemma call_effect:
  assumes "is_call a"
  shows "calls rt [a] w = w \<or> (\<exists>key val mt tgs. calls rt [a] w = send rt key val mt tgs w)"
  using call_is_send [OF assms call_enabled [OF assms]] .

lemma call_grows:
  assumes "wf_world w" and "is_call a"
  shows "wf_world (calls rt [a] w)" and "slen (buffer w) \<le> slen (buffer (calls rt [a] w))"
    and "maxBufferSize (calls rt [a] w) = maxBufferSize w"
proof -
  consider "calls rt [a] w = w"
    | key val mt tgs where "calls rt [a] w = send rt key val mt tgs w"
    using call_effect [OF assms(2)] by blast
  then have "wf_world (calls rt [a] w) \<and> slen (buffer w) \<le> slen (buffer (calls rt [a] w)) \<and>
      maxBufferSize (calls rt [a] w) = maxBufferSize w"
  proof cases
    case 1
    then show ?thesis using assms(1) by simp
  next
    case 2
    then show ?thesis
      using send_buffered(2,4) [OF assms(1), of rt key val mt tgs] by (simp add: send_fields)
  qed
  then show "wf_world (calls rt [a] w)" and "slen (buffer w) \<le> slen (buffer (calls rt [a] w))"
    and "maxBufferSize (calls rt [a] w) = maxBufferSize w"
    by simp_all
qed

lemma calls_grow:
  assumes "wf_world w"
  shows "slen (buffer w) \<le> slen (buffer (calls rt as w))"
  using assms
proof (induction as arbitrary: w)
  case Nil
  then show ?case by simp
next
  case (Cons a as)
  show ?case
  proof (cases "is_call a")
    case True
    have c: "calls rt (a # as) w = calls rt as (calls rt [a] w)"
      by (rule calls_Cons [OF True])
    have "slen (buffer (calls rt [a] w)) \<le> slen (buffer (calls rt as (calls rt [a] w)))"
      using Cons.IH [OF call_grows(1) [OF Cons.prems True]] .
    then show ?thesis
      unfolding c using call_grows(2) [OF Cons.prems True, of rt] by linarith
  next
    case False
    then have "calls rt (a # as) w = calls rt as w" by (rule calls_skip)
    then show ?thesis using Cons.IH [OF Cons.prems] by simp
  qed
qed

text \<open>A client nobody has asked to flush or to close, with its goroutine waiting.\<close>

lemma quiet_run:
  assumes "wf_world u" and "flushChan u = 0" and "bg u = AtSelect" and "\<not> quitChan u"
    and "run rt as u = Inr w" and "Tick \<notin> set as" and "Call_Close \<notin> set as"
    and "int (slen (buffer (calls rt as u))) < sint (maxBufferSize u)"
  shows "w = calls rt as u \<and> list_all is_call as \<and> written w = written u \<and>
         flushRequests w = flushRequests u \<and> flushChan w = 0"
  using assms
proof (induction as arbitrary: u)
  case Nil
  then show ?case by simp
next
  case (Cons a as)
  obtain u1 where s: "step rt a u = Inr u1" and r: "run rt as u1 = Inr w"
    using Cons.prems(5) by (auto split: sum.splits)
  have call: "is_call a"
    using s
  proof (cases rule: step_cases)
    case call
    then show ?thesis by simp
  qed (use Cons.prems in simp_all)
  have u1: "u1 = calls rt [a] u" using s call_enabled [OF call, of rt u] by simp
  have wf1: "wf_world u1" and mx: "maxBufferSize u1 = maxBufferSize u"
    using call_grows(1,3) [OF Cons.prems(1) call, of rt] by (simp_all add: u1)
  have c: "calls rt (a # as) u = calls rt as u1"
    unfolding u1 by (rule calls_Cons [OF call])
  have small: "int (slen (buffer (calls rt as u1))) < sint (maxBufferSize u1)"
    using Cons.prems(8) by (simp add: c mx)
  have below: "int (slen (buffer u1)) < sint (maxBufferSize u)"
    using calls_grow [OF wf1, of rt as] small mx by simp
  have same: "written u1 = written u \<and> flushRequests u1 = flushRequests u \<and>
      flushChan u1 = flushChan u \<and> bg u1 = bg u \<and> quitChan u1 = quitChan u"
  proof -
    consider "u1 = u" | key val mt tgs where "u1 = send rt key val mt tgs u"
      using call_effect [OF call, of rt u] u1 by auto
    then show ?thesis
    proof cases
      case 1
      then show ?thesis by simp
    next
      case 2
      then show ?thesis
        using below send_requests [of rt key val mt tgs u] by (simp add: send_fields)
    qed
  qed
  have f1: "flushChan u1 = 0" and b1: "bg u1 = AtSelect" and q1: "\<not> quitChan u1"
    using same Cons.prems(2,3,4) by simp_all
  have t1: "Tick \<notin> set as" and c1: "Call_Close \<notin> set as"
    using Cons.prems(6,7) by simp_all
  have ih: "w = calls rt as u1 \<and> list_all is_call as \<and> written w = written u1 \<and>
         flushRequests w = flushRequests u1 \<and> flushChan w = 0"
    by (rule Cons.IH [OF wf1 f1 b1 q1 r t1 c1 small])
  have "w = calls rt (a # as) u" using ih c by metis
  moreover have "list_all is_call (a # as)" using ih call by simp
  moreover have "written w = written u" using ih same by metis
  moreover have "flushRequests w = flushRequests u" using ih same by metis
  moreover have "flushChan w = 0" using ih by blast
  ultimately show ?case by blast
qed

text \<open>
  C4. \<open>send\<close> calls \<open>requestFlush\<close> exactly when the buffer, after the append, is at least
  \<open>maxBufferSize\<close> long, and it returns in either case. Such an append leaves a signal in
  the flush channel: it fills the slot when it was free and leaves an occupied slot as it
  is, so that the goroutine at its \<open>select\<close> can take the flush case next; any other append
  leaves the channel as it was. From construction on, as long as the ticker has not fired and
  \<open>Close\<close> has not been called, and what the metric calls append together stays shorter than
  \<open>maxBufferSize\<close>, nothing but these calls can have happened: no flush was requested, the
  channel is empty, and nothing was written.
\<close>

theorem flush_requested_at_size_only:
  assumes "New rt opts = Inr w0" and "run rt as w0 = Inr w"
    and "Tick \<notin> set as" and "Call_Close \<notin> set as"
    and "int (slen (buffer (calls rt as w0))) < sint (maxBufferSize w0)"
  shows "flushRequests (send rt key val mt tgs u) =
           (if sint (maxBufferSize u) \<le> int (slen (buffer (send rt key val mt tgs u)))
            then Suc (flushRequests u) else flushRequests u) \<and>
         flushChan (send rt key val mt tgs u) =
           (if sint (maxBufferSize u) \<le> int (slen (buffer (send rt key val mt tgs u))) \<and>
               flushChan u = 0
            then 1 else flushChan u) \<and>
         (sint (maxBufferSize u) \<le> int (slen (buffer (send rt key val mt tgs u))) \<and>
          bg u = AtSelect \<longrightarrow>
            (\<exists>u'. step rt Recv_flushChan (send rt key val mt tgs u) = Inr u')) \<and>
         w = calls rt as w0 \<and> list_all is_call as \<and>
         flushRequests w = 0 \<and> flushChan w = 0 \<and> written w = []"
proof -
  have q: "w = calls rt as w0 \<and> list_all is_call as \<and> written w = written w0 \<and>
         flushRequests w = flushRequests w0 \<and> flushChan w = 0"
    using quiet_run [OF New_props(1,4,7,5) [OF assms(1)] assms(2-5)] .
  have 1: "written w = []" using q New_props(8) [OF assms(1)] by metis
  have 2: "flushRequests w = 0" using q New_props(10) [OF assms(1)] by metis
  have 3: "flushChan (send rt key val mt tgs u) =
           (if sint (maxBufferSize u) \<le> int (slen (buffer (send rt key val mt tgs u))) \<and>
               flushChan u = 0
            then 1 else flushChan u)"
    unfolding send_requests(2) [of rt key val mt tgs u]
    by (simp add: requestFlush_fields flushChanCap_def)
  have 4: "sint (maxBufferSize u) \<le> int (slen (buffer (send rt key val mt tgs u))) \<and>
          bg u = AtSelect \<longrightarrow>
            (\<exists>u'. step rt Recv_flushChan (send rt key val mt tgs u) = Inr u')"
  proof
    assume a: "sint (maxBufferSize u) \<le> int (slen (buffer (send rt key val mt tgs u))) \<and>
          bg u = AtSelect"
    then have "0 < flushChan (send rt key val mt tgs u)" unfolding 3 by simp
    then show "\<exists>u'. step rt Recv_flushChan (send rt key val mt tgs u) = Inr u'"
      using a by (simp add: send_fields split: prod.splits option.splits)
  qed
  show ?thesis
    using q 1 2 3 4 send_requests(1) [of rt key val mt tgs u] by blast
qed

lemma send_slen_no_tags:
  assumes "wf_world w" and "slen (tags w) = 0"
  shows "slen (buffer (send rt key val mt tgs w)) =
           slen (buffer w) + length (prefix w) + length key + length val + length mt + 3"
  using send_buffered(4) [OF assms(1), of rt key val mt tgs] assms(2)
  by (simp add: line_def bytes_of_def)

theorem flush_requested_at_size_only_witness:
  "case New env0 [MaxBufferSize 8] of
     Inl e \<Rightarrow> False
   | Inr w0 \<Rightarrow>
       (case run env0 [Call_Increment ''a'' []] w0 of
          Inl e \<Rightarrow> False
        | Inr w \<Rightarrow>
            Tick \<notin> set [Call_Increment ''a'' []] \<and>
            Call_Close \<notin> set [Call_Increment ''a'' []] \<and>
            int (slen (buffer (calls env0 [Call_Increment ''a'' []] w0))) < sint (maxBufferSize w0) \<and>
            flushRequests w = 0 \<and> flushChan w = 0 \<and> written w = [] \<and>
            slen (buffer w) = 6 \<and>
            slen (buffer (send env0 ''b'' ''1'' ''c'' [] w)) = 12 \<and>
            flushRequests (send env0 ''b'' ''1'' ''c'' [] w) = 1 \<and>
            flushChan (send env0 ''b'' ''1'' ''c'' [] w) = 1)"
proof -
  obtain w0 where n: "New env0 [MaxBufferSize 8] = Inr w0"
    using New_env0_small by blast
  define w where "w = send env0 ''a'' ''1'' ''c'' [] w0"
  have i: "Increment env0 ''a'' [] w0 = w"
    by (simp add: w_def Increment_def Count_def FormatInt_1)
  have r: "run env0 [Call_Increment ''a'' []] w0 = Inr w" by (simp add: i)
  have c: "calls env0 [Call_Increment ''a'' []] w0 = w" by (simp add: i)
  have wf0: "wf_world w0" and t0: "slen (tags w0) = 0" and b0: "slen (buffer w0) = 0"
    and p0: "prefix w0 = []" and m0: "maxBufferSize w0 = 8"
    using New_props [OF n] by (simp_all add: configure_def MaxBufferSize_def)
  have l: "slen (buffer w) = 6"
    using send_slen_no_tags [OF wf0 t0, of env0 "''a''" "''1''" "''c''" "[]"] b0 p0
    by (simp add: w_def)
  have wf: "wf_world w" using send_buffered(2) [OF wf0] by (simp add: w_def)
  have t: "slen (tags w) = 0" "prefix w = []" "maxBufferSize w = 8"
    using t0 p0 m0 by (simp_all add: w_def send_fields)
  have l2: "slen (buffer (send env0 ''b'' ''1'' ''c'' [] w)) = 12"
    using send_slen_no_tags [OF wf t(1), of env0 "''b''" "''1''" "''c''" "[]"] l t(2) by simp
  have h1: "Tick \<notin> set [Call_Increment ''a'' []]" and h2: "Call_Close \<notin> set [Call_Increment ''a'' []]"
    by simp_all
  have h3: "int (slen (buffer (calls env0 [Call_Increment ''a'' []] w0))) < sint (maxBufferSize w0)"
    unfolding c by (simp add: l m0)
  have th: "flushRequests (send env0 ''b'' ''1'' ''c'' [] w) =
           (if sint (maxBufferSize w) \<le> int (slen (buffer (send env0 ''b'' ''1'' ''c'' [] w)))
            then Suc (flushRequests w) else flushRequests w) \<and>
         flushChan (send env0 ''b'' ''1'' ''c'' [] w) =
           (if sint (maxBufferSize w) \<le> int (slen (buffer (send env0 ''b'' ''1'' ''c'' [] w))) \<and>
               flushChan w = 0
            then 1 else flushChan w) \<and>
         (sint (maxBufferSize w) \<le> int (slen (buffer (send env0 ''b'' ''1'' ''c'' [] w))) \<and>
          bg w = AtSelect \<longrightarrow>
            (\<exists>u'. step env0 Recv_flushChan (send env0 ''b'' ''1'' ''c'' [] w) = Inr u')) \<and>
         w = calls env0 [Call_Increment ''a'' []] w0 \<and> list_all is_call [Call_Increment ''a'' []] \<and>
         flushRequests w = 0 \<and> flushChan w = 0 \<and> written w = []"
    by (rule flush_requested_at_size_only [OF n r h1 h2 h3])
  have q: "flushRequests w = 0" "flushChan w = 0" "written w = []" using th by blast+
  have f: "flushRequests (send env0 ''b'' ''1'' ''c'' [] w) =
           (if sint (maxBufferSize w) \<le> int (slen (buffer (send env0 ''b'' ''1'' ''c'' [] w)))
            then Suc (flushRequests w) else flushRequests w)"
    using th by blast
  have g: "flushChan (send env0 ''b'' ''1'' ''c'' [] w) =
           (if sint (maxBufferSize w) \<le> int (slen (buffer (send env0 ''b'' ''1'' ''c'' [] w))) \<and>
               flushChan w = 0
            then 1 else flushChan w)"
    using th by blast
  have "flushRequests (send env0 ''b'' ''1'' ''c'' [] w) = 1"
    unfolding f by (simp add: l2 t(3) q(1))
  moreover have "flushChan (send env0 ''b'' ''1'' ''c'' [] w) = 1"
    unfolding g by (simp add: l2 t(3) q(2))
  ultimately show ?thesis
    using n r h3 q l l2 by simp
qed

section \<open>The tag serializer\<close>

lemma serializeTagsTo_loop_bytes:
  assumes "wf_slice dst m"
  shows "bytes_of (fst (serializeTagsTo_loop rt dst tgs m)) (snd (serializeTagsTo_loop rt dst tgs m)) =
           bytes_of dst m @ render_tags tgs"
  using serializeTagsTo_loop_grows [OF assms, of tgs rt]
  by (cases "serializeTagsTo_loop rt dst tgs m") (simp add: grows_by_def)

lemma make_bytes_empty:
  "wf_slice (fst (make_bytes n m)) (snd (make_bytes n m))"
  "bytes_of (fst (make_bytes n m)) (snd (make_bytes n m)) = []"
  "slen (fst (make_bytes n m)) = 0"
  by (simp_all add: make_bytes_def wf_slice_def bytes_of_def)

text \<open>What the caller of \<open>serializeTagsTo\<close> sees of its own slice afterwards: what it saw before.\<close>

lemma serializeTagsTo_leaves_destination:
  assumes "wf_slice dst m"
  shows "bytes_of dst (serializeTagsTo rt dst tgs m) = bytes_of dst m"
proof -
  obtain s m' where l: "serializeTagsTo_loop rt dst tgs m = (s, m')" by force
  have "grows_by (dst, m) (render_tags tgs) (s, m')"
    using serializeTagsTo_loop_grows [OF assms, of tgs rt] l by simp
  moreover have "wf_slice dst m \<and> spares dst dst" using assms by (simp add: spares_def)
  ultimately have "bytes_of dst m' = bytes_of dst m" by (simp add: grows_by_def)
  then show ?thesis by (simp add: serializeTagsTo_def l)
qed

section \<open>The final drain\<close>

lemma final_phase_step:
  assumes "final_phase (bg u)" and "step rt a u = Inr u'"
  shows "final_phase (bg u') \<and> a \<noteq> Tick \<and> a \<noteq> Recv_flushChan \<and> a \<noteq> Recv_quitChan"
  using assms(2)
proof (cases rule: step_cases)
  case call
  then show ?thesis using assms(1) by (auto simp: send_fields)
next
  case (do_write err data fin)
  then show ?thesis using assms(1) by (cases fin) (simp_all add: bg_return_fields)
qed (use assms(1) in \<open>simp_all add: Close_finish_fields\<close>)

lemma final_phase_run:
  assumes "final_phase (bg u)" and "run rt as u = Inr u'"
  shows "final_phase (bg u') \<and> Tick \<notin> set as \<and> Recv_flushChan \<notin> set as \<and> Recv_quitChan \<notin> set as"
  using assms
proof (induction as arbitrary: u)
  case Nil
  then show ?case by simp
next
  case (Cons a as)
  obtain u1 where s: "step rt a u = Inr u1" and r: "run rt as u1 = Inr u'"
    using Cons.prems(2) by (auto split: sum.splits)
  have f: "final_phase (bg u1) \<and> a \<noteq> Tick \<and> a \<noteq> Recv_flushChan \<and> a \<noteq> Recv_quitChan"
    by (rule final_phase_step [OF Cons.prems(1) s])
  then show ?case using Cons.IH [OF _ r] by auto
qed

lemma not_final_step:
  assumes "\<not> final_phase (bg u)" and "step rt a u = Inr u'"
  shows "final_phase (bg u') \<longleftrightarrow> a = Recv_quitChan"
  using assms(2)
proof (cases rule: step_cases)
  case call
  then show ?thesis using assms(1) by (auto simp: send_fields)
next
  case (do_write err data fin)
  then show ?thesis using assms(1) by (cases fin) (simp_all add: conn_Write_fields)
qed (use assms(1) in \<open>simp_all add: Close_finish_fields requestFlush_fields bg_return_fields\<close>)

lemma count_final_drains:
  assumes "\<not> final_phase (bg u)" and "run rt as u = Inr u'"
  shows "count_list as Recv_quitChan = (if final_phase (bg u') then 1 else 0)"
  using assms
proof (induction as arbitrary: u)
  case Nil
  then show ?case by simp
next
  case (Cons a as)
  obtain u1 where s: "step rt a u = Inr u1" and r: "run rt as u1 = Inr u'"
    using Cons.prems(2) by (auto split: sum.splits)
  show ?case
  proof (cases "a = Recv_quitChan")
    case True
    then have "final_phase (bg u1)" using not_final_step [OF Cons.prems(1) s] by simp
    then have "final_phase (bg u')" and "Recv_quitChan \<notin> set as"
      using final_phase_run [OF _ r] by simp_all
    then show ?thesis using True by simp
  next
    case False
    then have "\<not> final_phase (bg u1)" using not_final_step [OF Cons.prems(1) s] by simp
    then show ?thesis using Cons.IH [OF _ r] False by simp
  qed
qed

lemma quitChan_needs_Close:
  assumes "\<not> quitChan u" and "run rt as u = Inr u'" and "quitChan u'"
  shows "Call_Close \<in> set as"
  using assms
proof (induction as arbitrary: u)
  case Nil
  then show ?case by simp
next
  case (Cons a as)
  obtain u1 where s: "step rt a u = Inr u1" and r: "run rt as u1 = Inr u'"
    using Cons.prems(2) by (auto split: sum.splits)
  show ?case
  proof (cases "a = Call_Close")
    case True
    then show ?thesis by simp
  next
    case False
    have "\<not> quitChan u1"
      using s
    proof (cases rule: step_cases)
      case call
      then show ?thesis using Cons.prems(1) by (auto simp: send_fields)
    next
      case (do_write err data fin)
      then show ?thesis
        using Cons.prems(1) by (cases fin) (simp_all add: bg_return_fields conn_Write_fields)
    qed (use Cons.prems(1) False in \<open>simp_all add: Close_finish_fields requestFlush_fields bg_return_fields\<close>)
    then show ?thesis using Cons.IH [OF _ r Cons.prems(3)] by simp
  qed
qed

lemma exited_run:
  assumes "bg u = Exited" and "run rt as u = Inr u'"
  shows "written u' = written u \<and> bg u' = Exited"
  using assms
proof (induction as arbitrary: u)
  case Nil
  then show ?case by simp
next
  case (Cons a as)
  obtain u1 where s: "step rt a u = Inr u1" and r: "run rt as u1 = Inr u'"
    using Cons.prems(2) by (auto split: sum.splits)
  have "written u1 = written u \<and> bg u1 = Exited"
    using s
  proof (cases rule: step_cases)
    case call
    then show ?thesis using Cons.prems(1) by (auto simp: send_fields)
  qed (use Cons.prems(1) in \<open>simp_all add: Close_finish_fields\<close>)
  then show ?case using Cons.IH [OF _ r] by simp
qed

lemma return_needed:
  assumes "\<not> closeReturned u" and "run rt as u = Inr u'" and "closeReturned u'"
  shows "list_ex is_return as"
  using assms
proof (induction as arbitrary: u)
  case Nil
  then show ?case by simp
next
  case (Cons a as)
  obtain u1 where s: "step rt a u = Inr u1" and r: "run rt as u1 = Inr u'"
    using Cons.prems(2) by (auto split: sum.splits)
  show ?case
  proof (cases "is_return a")
    case True
    then show ?thesis by simp
  next
    case False
    have "\<not> closeReturned u1"
      using s
    proof (cases rule: step_cases)
      case call
      then show ?thesis using Cons.prems(1) by (auto simp: send_fields)
    next
      case (do_write err data fin)
      then show ?thesis
        using Cons.prems(1) by (cases fin) (simp_all add: bg_return_fields conn_Write_fields)
    qed (use Cons.prems(1) False in \<open>simp_all add: requestFlush_fields bg_return_fields\<close>)
    then show ?thesis using Cons.IH [OF _ r Cons.prems(3)] by simp
  qed
qed

text \<open>
  The goroutine is in its final write, holding \<open>data\<close>. Until it writes, only metric calls
  can happen; if \<open>Close\<close> has returned at the end, the write was made before that, with the
  bytes \<open>data\<close> showed after those calls, and it is the only write.
\<close>

lemma final_write_before_return:
  assumes "ctl_inv u" and "bg u = Writing data True" and "run rt post u = Inr u'"
    and "closeReturned u'"
  shows "\<exists>p1 err p2. post = p1 @ Do_Write err # p2 \<and> list_all is_call p1 \<and>
           list_ex is_return p2 \<and>
           written u' = written u @ [bytes_of data (mem (calls rt p1 u))]"
  using assms
proof (induction post arbitrary: u)
  case Nil
  then show ?case by (simp add: ctl_inv_def)
next
  case (Cons a post)
  obtain u1 where s: "step rt a u = Inr u1" and r: "run rt post u1 = Inr u'"
    using Cons.prems(3) by (auto split: sum.splits)
  have nr: "\<not> closeReturned u" and q: "quitChan u" and g: "wg u \<noteq> 0"
    using Cons.prems(1,2) by (auto simp: ctl_inv_def)
  from s show ?case
  proof (cases rule: step_cases)
    case call
    have u1: "u1 = calls rt [a] u" using s call_enabled [OF call(1), of rt u] by simp
    have same: "bg u1 = bg u" "written u1 = written u"
      using call(2) by (auto simp: send_fields)
    have c: "calls rt (a # p) u = calls rt p u1" for p
      unfolding u1 by (rule calls_Cons [OF call(1)])
    obtain p1 err p2 where p: "post = p1 @ Do_Write err # p2" and a1: "list_all is_call p1"
      and a2: "list_ex is_return p2"
      and a3: "written u' = written u1 @ [bytes_of data (mem (calls rt p1 u1))]"
      using Cons.IH [OF ctl_inv_step [OF Cons.prems(1) s] _ r Cons.prems(4)] same Cons.prems(2)
      by auto
    have "a # post = (a # p1) @ Do_Write err # p2" using p by simp
    moreover have "list_all is_call (a # p1)" using a1 call(1) by simp
    moreover have "written u' = written u @ [bytes_of data (mem (calls rt (a # p1) u))]"
      using a3 same(2) c [of p1] by simp
    ultimately show ?thesis using a2 by blast
  next
    case (do_write err d fin)
    have u1: "u1 = bg_return (conn_Write err data u)"
      using do_write Cons.prems(2) by simp
    have e: "bg u1 = Exited" and w1: "written u1 = written u @ [bytes_of data (mem u)]"
      and n1: "\<not> closeReturned u1"
      using nr by (simp_all add: u1 bg_return_fields conn_Write_fields)
    have "written u' = written u1" using exited_run [OF e r] by simp
    then have "written u' = written u @ [bytes_of data (mem (calls rt [] u))]"
      using w1 by simp
    moreover have "list_ex is_return post" using return_needed [OF n1 r Cons.prems(4)] .
    moreover have "a # post = [] @ Do_Write err # post" using do_write(1) by simp
    moreover have "list_all is_call []" by simp
    ultimately show ?thesis by blast
  qed (use Cons.prems(2) q g in simp_all)
qed

text \<open>What taking the quit case does, by whether the buffer is empty.\<close>

lemma final_drain_step:
  assumes "step rt Recv_quitChan u = Inr u'" and "wf_slice (buffer u) (mem u)"
  shows "quitChan u \<and> final_phase (bg u') \<and> slen (buffer u') = 0 \<and> written u' = written u \<and>
         (slen (buffer u) = 0 \<longrightarrow> bg u' = Exited) \<and>
         (0 < slen (buffer u) \<longrightarrow>
           (\<exists>data. bg u' = Writing data True \<and> bytes_of data (mem u') = butlast (buffered u)))"
  using assms(1)
proof (cases rule: step_cases)
  case quit_empty
  then show ?thesis by (simp add: bg_return_fields)
next
  case quit_data
  then show ?thesis
    using bytes_of_shorter [OF assms(2)] by (simp add: buffered_def)
qed simp_all

text \<open>
  The shutdown in any run of a client from its construction. The background goroutine takes
  the quit case at most once, and if \<open>Close\<close> has returned it has taken it exactly once and
  has returned itself. Where it takes the quit case, \<open>Close\<close> was called before; afterwards
  it handles no ticker event, no flush signal and no second quit. That drain leaves the buffer
  empty: on an empty buffer the goroutine returns at once and writes nothing more; otherwise
  it holds \<open>data\<close>, which then shows the buffer's bytes without the final terminator, and if
  \<open>Close\<close> has returned then between the drain and that return lies the one write, of the
  bytes \<open>data\<close> shows after the metric calls that ran between the drain and the write.
\<close>

lemma shutdown_in_runs:
  assumes "New rt opts = Inr w0" and "run rt as w0 = Inr w"
  shows "count_list as Recv_quitChan \<le> 1 \<and>
         (closeReturned w \<longrightarrow> bg w = Exited \<and> count_list as Recv_quitChan = 1) \<and>
         (\<forall>pre post. as = pre @ Recv_quitChan # post \<longrightarrow>
            Call_Close \<in> set pre \<and> Tick \<notin> set post \<and> Recv_flushChan \<notin> set post \<and>
            Recv_quitChan \<notin> set post \<and>
            (\<exists>w1 w2. run rt pre w0 = Inr w1 \<and> step rt Recv_quitChan w1 = Inr w2 \<and>
               run rt post w2 = Inr w \<and> slen (buffer w2) = 0 \<and>
               (slen (buffer w1) = 0 \<longrightarrow> bg w2 = Exited \<and> written w = written w1) \<and>
               (0 < slen (buffer w1) \<longrightarrow>
                  (\<exists>data. bg w2 = Writing data True \<and>
                     bytes_of data (mem w2) = butlast (buffered w1) \<and>
                     (closeReturned w \<longrightarrow>
                        (\<exists>p1 err p2. post = p1 @ Do_Write err # p2 \<and> list_all is_call p1 \<and>
                           list_ex is_return p2 \<and>
                           written w = written w1 @ [bytes_of data (mem (calls rt p1 w2))]))))))"
proof -
  have nf: "\<not> final_phase (bg w0)" and nq: "\<not> quitChan w0"
    using New_props(5,7) [OF assms(1)] by simp_all
  have cnt: "count_list as Recv_quitChan = (if final_phase (bg w) then 1 else 0)"
    by (rule count_final_drains [OF nf assms(2)])
  have 1: "count_list as Recv_quitChan \<le> 1" using cnt by simp
  have 2: "closeReturned w \<longrightarrow> bg w = Exited \<and> count_list as Recv_quitChan = 1"
    using reachable_inv(1) [OF assms] cnt by (auto simp: ctl_inv_def)
  have 3: "Call_Close \<in> set pre \<and> Tick \<notin> set post \<and> Recv_flushChan \<notin> set post \<and>
            Recv_quitChan \<notin> set post \<and>
            (\<exists>w1 w2. run rt pre w0 = Inr w1 \<and> step rt Recv_quitChan w1 = Inr w2 \<and>
               run rt post w2 = Inr w \<and> slen (buffer w2) = 0 \<and>
               (slen (buffer w1) = 0 \<longrightarrow> bg w2 = Exited \<and> written w = written w1) \<and>
               (0 < slen (buffer w1) \<longrightarrow>
                  (\<exists>data. bg w2 = Writing data True \<and>
                     bytes_of data (mem w2) = butlast (buffered w1) \<and>
                     (closeReturned w \<longrightarrow>
                        (\<exists>p1 err p2. post = p1 @ Do_Write err # p2 \<and> list_all is_call p1 \<and>
                           list_ex is_return p2 \<and>
                           written w = written w1 @ [bytes_of data (mem (calls rt p1 w2))])))))"
    if as: "as = pre @ Recv_quitChan # post" for pre post
  proof -
    obtain w1 where r1: "run rt pre w0 = Inr w1" and r: "run rt (Recv_quitChan # post) w1 = Inr w"
      using assms(2) unfolding as by (auto simp: run_append split: sum.splits)
    obtain w2 where s: "step rt Recv_quitChan w1 = Inr w2" and r2: "run rt post w2 = Inr w"
      using r by (auto split: sum.splits)
    have wf: "wf_slice (buffer w1) (mem w1)"
      using reachable_inv(2) [OF assms(1) r1] by (simp add: mem_inv_def wf_world_def)
    have c2: "ctl_inv w2"
      using ctl_inv_step [OF reachable_inv(1) [OF assms(1) r1] s] .
    have d: "quitChan w1 \<and> final_phase (bg w2) \<and> slen (buffer w2) = 0 \<and>
         written w2 = written w1 \<and> (slen (buffer w1) = 0 \<longrightarrow> bg w2 = Exited) \<and>
         (0 < slen (buffer w1) \<longrightarrow>
           (\<exists>data. bg w2 = Writing data True \<and> bytes_of data (mem w2) = butlast (buffered w1)))"
      by (rule final_drain_step [OF s wf])
    have a: "Call_Close \<in> set pre"
      using quitChan_needs_Close [OF nq r1] d by simp
    have b: "Tick \<notin> set post \<and> Recv_flushChan \<notin> set post \<and> Recv_quitChan \<notin> set post"
      using final_phase_run [OF _ r2] d by simp
    have e: "slen (buffer w1) = 0 \<longrightarrow> bg w2 = Exited \<and> written w = written w1"
      using d exited_run [OF _ r2] by auto
    have f: "0 < slen (buffer w1) \<longrightarrow>
                  (\<exists>data. bg w2 = Writing data True \<and>
                     bytes_of data (mem w2) = butlast (buffered w1) \<and>
                     (closeReturned w \<longrightarrow>
                        (\<exists>p1 err p2. post = p1 @ Do_Write err # p2 \<and> list_all is_call p1 \<and>
                           list_ex is_return p2 \<and>
                           written w = written w1 @ [bytes_of data (mem (calls rt p1 w2))])))"
    proof
      assume "0 < slen (buffer w1)"
      then obtain data where g: "bg w2 = Writing data True"
        and h: "bytes_of data (mem w2) = butlast (buffered w1)"
        using d by blast
      have "closeReturned w \<longrightarrow>
                        (\<exists>p1 err p2. post = p1 @ Do_Write err # p2 \<and> list_all is_call p1 \<and>
                           list_ex is_return p2 \<and>
                           written w = written w1 @ [bytes_of data (mem (calls rt p1 w2))])"
        using final_write_before_return [OF c2 g r2] d by auto
      then show "\<exists>data. bg w2 = Writing data True \<and>
                     bytes_of data (mem w2) = butlast (buffered w1) \<and>
                     (closeReturned w \<longrightarrow>
                        (\<exists>p1 err p2. post = p1 @ Do_Write err # p2 \<and> list_all is_call p1 \<and>
                           list_ex is_return p2 \<and>
                           written w = written w1 @ [bytes_of data (mem (calls rt p1 w2))]))"
        using g h by blast
    qed
    have z: "slen (buffer w2) = 0" using d by blast
    have "run rt pre w0 = Inr w1 \<and> step rt Recv_quitChan w1 = Inr w2 \<and>
               run rt post w2 = Inr w \<and> slen (buffer w2) = 0 \<and>
               (slen (buffer w1) = 0 \<longrightarrow> bg w2 = Exited \<and> written w = written w1) \<and>
               (0 < slen (buffer w1) \<longrightarrow>
                  (\<exists>data. bg w2 = Writing data True \<and>
                     bytes_of data (mem w2) = butlast (buffered w1) \<and>
                     (closeReturned w \<longrightarrow>
                        (\<exists>p1 err p2. post = p1 @ Do_Write err # p2 \<and> list_all is_call p1 \<and>
                           list_ex is_return p2 \<and>
                           written w = written w1 @ [bytes_of data (mem (calls rt p1 w2))]))))"
      using r1 s r2 z e f by (intro conjI)
    then show ?thesis using a b by (intro conjI exI [of _ w1] exI [of _ w2]) simp_all
  qed
  show ?thesis using 1 2 3 by blast
qed

section \<open>Appends within the capacity\<close>

lemma write_at_twice:
  assumes "i + length a \<le> length arr"
  shows "write_at (write_at arr i a) (i + length a) b = write_at arr i (a @ b)"
proof -
  have "length arr \<le> i \<longrightarrow> length a = 0" using assms by arith
  then show ?thesis using assms by (auto simp: write_at_def min_def ac_simps)
qed

lemma write_at_length:
  assumes "i + length a \<le> length arr"
  shows "length (write_at arr i a) = length arr"
  using assms by (simp add: write_at_def)

lemma in_place_Nil:
  "in_place [] w = w"
  by (simp add: in_place_def write_at_def)

lemma buffer_append_in_place:
  assumes "slen (buffer w) + length bs \<le> scap (buffer w)"
  shows "buffer_append rt bs w = in_place bs w"
  using assms by (simp add: buffer_append_def go_append_def in_place_def Let_def)

lemma append_after_in_place:
  assumes "length (arrays (mem w) (base (buffer w))) = scap (buffer w)"
    and "slen (buffer w) + length a + length b \<le> scap (buffer w)"
  shows "buffer_append rt b (in_place a w) = in_place (a @ b) w"
proof -
  have "slen (buffer (in_place a w)) + length b \<le> scap (buffer (in_place a w))"
    using assms(2) by (simp add: in_place_def)
  then have "buffer_append rt b (in_place a w) = in_place b (in_place a w)"
    by (rule buffer_append_in_place)
  also have "\<dots> = in_place (a @ b) w"
    using assms write_at_twice [of "slen (buffer w)" a "arrays (mem w) (base (buffer w))" b]
    by (simp add: in_place_def add.assoc)
  finally show ?thesis .
qed

lemma in_place_fields:
  "tags (in_place bs w) = tags w" "prefix (in_place bs w) = prefix w"
  "maxBufferSize (in_place bs w) = maxBufferSize w" "bg (in_place bs w) = bg w"
  "flushChan (in_place bs w) = flushChan w" "written (in_place bs w) = written w"
  "quitChan (in_place bs w) = quitChan w" "wg (in_place bs w) = wg w"
  "closeReturned (in_place bs w) = closeReturned w"
  "base (buffer (in_place bs w)) = base (buffer w)"
  "slen (buffer (in_place bs w)) = slen (buffer w) + length bs"
  "scap (buffer (in_place bs w)) = scap (buffer w)"
  "arrays (mem (in_place bs w)) (base (buffer w)) =
     write_at (arrays (mem w) (base (buffer w))) (slen (buffer w)) bs"
  by (simp_all add: in_place_def)

lemma in_place_tags_bytes:
  assumes "base (buffer w) \<noteq> base (tags w)"
  shows "bytes_of (tags w) (mem (in_place bs w)) = bytes_of (tags w) (mem w)"
  using assms by (simp add: in_place_def bytes_of_def)

text \<open>\<open>send\<close> without tags of the call, when the line fits the capacity.\<close>

lemma send_in_place:
  assumes "wf_world w"
    and "slen (buffer w) + length (line w key val mt) \<le> scap (buffer w)"
  shows "send rt key val mt [] w =
           (if sint (maxBufferSize w) \<le> int (slen (buffer w) + length (line w key val mt))
            then requestFlush (in_place (line w key val mt) w)
            else in_place (line w key val mt) w)"
proof -
  define t where "t = bytes_of (tags w) (mem w)"
  have len: "length (arrays (mem w) (base (buffer w))) = scap (buffer w)"
    and ne: "base (buffer w) \<noteq> base (tags w)"
    using assms(1) by (simp_all add: wf_world_def wf_slice_def)
  have cap: "slen (buffer w) + length (prefix w) + length key + 1 + length val + length t + 1 +
      length mt + 1 \<le> scap (buffer w)"
    using assms(2) by (simp add: line_def t_def)
  define w1 where "w1 = buffer_append rt (prefix w) w"
  define w2 where "w2 = buffer_append rt key w1"
  define w3 where "w3 = buffer_append rt '':'' w2"
  define w4 where "w4 = buffer_append rt val w3"
  define w5 where "w5 = buffer_append rt (bytes_of (tags w4) (mem w4)) w4"
  define w6 where "w6 = w5\<lparr>mem := serializeTagsTo rt (buffer w5) [] (mem w5)\<rparr>"
  define w7 where "w7 = buffer_append rt ''|'' w6"
  define w8 where "w8 = buffer_append rt mt w7"
  define w9 where "w9 = buffer_append rt [CHR 0x0A] w8"
  have s: "send rt key val mt [] w =
             (if sint (maxBufferSize w9) \<le> int (slen (buffer w9)) then requestFlush w9 else w9)"
    unfolding send_def Let_def w9_def w8_def w7_def w6_def w5_def w4_def w3_def w2_def w1_def ..
  have e1: "w1 = in_place (prefix w) w"
    unfolding w1_def using cap by (intro buffer_append_in_place) simp
  have e2: "w2 = in_place (prefix w @ key) w"
    unfolding w2_def e1 using cap by (intro append_after_in_place [OF len]) simp
  have e3: "w3 = in_place ((prefix w @ key) @ '':'') w"
    unfolding w3_def e2 using cap by (intro append_after_in_place [OF len]) simp
  have e4: "w4 = in_place (((prefix w @ key) @ '':'') @ val) w"
    unfolding w4_def e3 using cap by (intro append_after_in_place [OF len]) simp
  have t4: "bytes_of (tags w4) (mem w4) = t"
    unfolding e4 t_def by (simp add: in_place_fields in_place_tags_bytes [OF ne])
  have e5: "w5 = in_place ((((prefix w @ key) @ '':'') @ val) @ t) w"
    unfolding w5_def t4 unfolding e4 using cap by (intro append_after_in_place [OF len]) simp
  have e6: "w6 = w5" by (simp add: w6_def serializeTagsTo_def)
  have e7: "w7 = in_place (((((prefix w @ key) @ '':'') @ val) @ t) @ ''|'') w"
    unfolding w7_def e6 e5 using cap by (intro append_after_in_place [OF len]) simp
  have e8: "w8 = in_place ((((((prefix w @ key) @ '':'') @ val) @ t) @ ''|'') @ mt) w"
    unfolding w8_def e7 using cap by (intro append_after_in_place [OF len]) simp
  have e9: "w9 = in_place (((((((prefix w @ key) @ '':'') @ val) @ t) @ ''|'') @ mt) @ [CHR 0x0A]) w"
    unfolding w9_def e8 using cap by (intro append_after_in_place [OF len]) simp
  have l: "((((((prefix w @ key) @ '':'') @ val) @ t) @ ''|'') @ mt) @ [CHR 0x0A] = line w key val mt"
    by (simp add: line_def t_def)
  show ?thesis
    unfolding s e9 l by (simp add: in_place_fields)
qed

section \<open>A send between a drain and its write\<close>

lemma New_scap:
  assumes "New rt opts = Inr w"
  shows "scap (buffer w) = nat (sint (o_maxBufferSize (configure opts) * bufferCapFactor))"
  using assms
  by (auto simp: New_def Let_def make_bytes_def split: if_splits prod.splits)

text \<open>
  The example the two drains below share: a client with \<open>MaxBufferSize(8)\<close>, so with a
  buffer of capacity 16, and \<open>Increment("aaaa")\<close> on it. The line has nine bytes: it fills
  the array from index 0, and it reaches the size at which \<open>send\<close> requests a flush.
\<close>

lemma first_line:
  assumes "New env0 [MaxBufferSize 8] = Inr w0"
  defines "w1 \<equiv> Increment env0 ''aaaa'' [] w0"
  shows "w1 = requestFlush (in_place (''aaaa:1|c'' @ [CHR 0x0A]) w0)"
    and "wf_world w1" and "slen (buffer w1) = 9" and "scap (buffer w1) = 16"
    and "slen (tags w1) = 0" and "prefix w1 = []" and "maxBufferSize w1 = 8"
    and "take 9 (arrays (mem w1) (base (buffer w1))) = ''aaaa:1|c'' @ [CHR 0x0A]"
    and "bg w1 = AtSelect" and "flushChan w1 = 1" and "\<not> quitChan w1" and "wg w1 = 1"
    and "written w1 = []" and "\<not> closeReturned w1"
    and "buffered w1 = ''aaaa:1|c'' @ [CHR 0x0A]"
proof -
  have wf0: "wf_world w0" and b0: "slen (buffer w0) = 0" and t0: "slen (tags w0) = 0"
    and p0: "prefix w0 = []" and m0: "maxBufferSize w0 = 8" and c0: "scap (buffer w0) = 16"
    and f0: "flushChan w0 = 0" "bg w0 = AtSelect" "\<not> quitChan w0" "wg w0 = 1" "written w0 = []"
      "\<not> closeReturned w0"
    using New_props [OF assms(1)] New_scap [OF assms(1)]
    by (simp_all add: configure_def MaxBufferSize_def bufferCapFactor_def)
  have l: "line w0 ''aaaa'' ''1'' ''c'' = ''aaaa:1|c'' @ [CHR 0x0A]"
    using t0 p0 by (simp add: line_def bytes_of_def)
  have i: "w1 = send env0 ''aaaa'' ''1'' ''c'' [] w0"
    by (simp add: w1_def Increment_def Count_def FormatInt_1)
  show e: "w1 = requestFlush (in_place (''aaaa:1|c'' @ [CHR 0x0A]) w0)"
    unfolding i using send_in_place [OF wf0, of "''aaaa''" "''1''" "''c''" env0] b0 c0 m0
    by (simp add: l)
  show "wf_world w1" unfolding i by (rule send_buffered(2) [OF wf0])
  have len: "length (arrays (mem w0) (base (buffer w0))) = 16"
    using wf0 c0 by (simp add: wf_world_def wf_slice_def)
  show "slen (buffer w1) = 9" "scap (buffer w1) = 16" "slen (tags w1) = 0" "prefix w1 = []"
    "maxBufferSize w1 = 8" "bg w1 = AtSelect" "\<not> quitChan w1" "wg w1 = 1" "written w1 = []"
    "\<not> closeReturned w1"
    using b0 c0 t0 p0 m0 f0 by (simp_all add: e requestFlush_fields in_place_fields)
  show "flushChan w1 = 1"
    using f0 by (simp add: e requestFlush_fields in_place_fields flushChanCap_def)
  show "take 9 (arrays (mem w1) (base (buffer w1))) = ''aaaa:1|c'' @ [CHR 0x0A]"
    using b0 by (simp add: e requestFlush_fields in_place_fields write_at_def)
  show "buffered w1 = ''aaaa:1|c'' @ [CHR 0x0A]"
    unfolding i using send_buffered(1) [OF wf0, of env0 "''aaaa''" "''1''" "''c''" "[]"] b0
    by (simp add: l buffered_def bytes_of_def)
qed

text \<open>
  After a drain of that buffer, \<open>Increment("bb")\<close> writes its seven bytes from index 0 of the
  same array, and the header \<open>data\<close> of eight bytes, taken at the drain, shows them followed
  by the eighth byte of the old line.
\<close>

lemma second_line_overwrites:
  assumes "wf_world u" and "slen (buffer u) = 0" and "scap (buffer u) = 16"
    and "slen (tags u) = 0" and "prefix u = []" and "maxBufferSize u = 8"
    and "take 9 (arrays (mem u) (base (buffer u))) = ''aaaa:1|c'' @ [CHR 0x0A]"
  shows "Increment env0 ''bb'' [] u = in_place (''bb:1|c'' @ [CHR 0x0A]) u"
    and "bytes_of ((buffer u)\<lparr>slen := 8\<rparr>) (mem (Increment env0 ''bb'' [] u)) =
           ''bb:1|c'' @ [CHR 0x0A] @ ''c''"
    and "buffered (Increment env0 ''bb'' [] u) = ''bb:1|c'' @ [CHR 0x0A]"
proof -
  define arr where "arr = arrays (mem u) (base (buffer u))"
  have l: "line u ''bb'' ''1'' ''c'' = ''bb:1|c'' @ [CHR 0x0A]"
    using assms(4,5) by (simp add: line_def bytes_of_def)
  have i: "Increment env0 ''bb'' [] u = send env0 ''bb'' ''1'' ''c'' [] u"
    by (simp add: Increment_def Count_def FormatInt_1)
  show e: "Increment env0 ''bb'' [] u = in_place (''bb:1|c'' @ [CHR 0x0A]) u"
    unfolding i using send_in_place [OF assms(1), of "''bb''" "''1''" "''c''" env0] assms(2,3,6)
    by (simp add: l)
  have "take 8 arr = take 8 (take 9 arr)" by simp
  then have t8: "take 8 arr = ''aaaa:1|c''" using assms(7) by (simp add: arr_def)
  have "take 1 (drop 7 arr) = drop 7 (take 8 arr)" by (simp add: drop_take)
  then have c: "take 1 (drop 7 arr) = ''c''" by (simp add: t8)
  show "bytes_of ((buffer u)\<lparr>slen := 8\<rparr>) (mem (Increment env0 ''bb'' [] u)) =
           ''bb:1|c'' @ [CHR 0x0A] @ ''c''"
  proof -
    have seven: "Suc (Suc (Suc (Suc (Suc (Suc (Suc 0)))))) = 7" by simp
    show ?thesis
      using assms(2) c
      by (simp add: e bytes_of_def in_place_fields write_at_def arr_def [symmetric] seven)
  qed
  show "buffered (Increment env0 ''bb'' [] u) = ''bb:1|c'' @ [CHR 0x0A]"
    unfolding i using send_buffered(1) [OF assms(1), of env0 "''bb''" "''1''" "''c''" "[]"] assms(2)
    by (simp add: l buffered_def bytes_of_def)
qed

text \<open>
  C3. The bytes handed to the transport are to be the buffer's contents without the trailing
  terminator. \<open>flushMetrics\<close> releases the lock before \<open>conn.Write(data)\<close>, and \<open>data\<close> is a
  header on the buffer's own array, which a \<open>send\<close> fills again from index 0 once the
  buffer has length 0. Client with \<open>MaxBufferSize(8)\<close>: the buffer holds \<open>aaaa:1|c\<close> and the
  terminator; the goroutine takes the flush signal, and \<open>data\<close> shows \<open>aaaa:1|c\<close> over an
  empty buffer; a caller's \<open>Increment("bb")\<close> runs; then the goroutine's write is handed
  \<open>bb:1|c\<close>, the terminator and \<open>c\<close>.
\<close>

theorem write_after_interleaved_send:
  "case New env0 [MaxBufferSize 8] of
     Inl e \<Rightarrow> False
   | Inr w0 \<Rightarrow>
       (case run env0 [Call_Increment ''aaaa'' []] w0 of
          Inl e \<Rightarrow> False
        | Inr w \<Rightarrow> buffered w = ''aaaa:1|c'' @ [CHR 0x0A]) \<and>
       (case run env0 [Call_Increment ''aaaa'' [], Recv_flushChan] w0 of
          Inl e \<Rightarrow> False
        | Inr w \<Rightarrow>
            (case bg w of
               Writing data fin \<Rightarrow> bytes_of data (mem w) = ''aaaa:1|c'' \<and> slen (buffer w) = 0
             | _ \<Rightarrow> False)) \<and>
       (case run env0 [Call_Increment ''aaaa'' [], Recv_flushChan, Call_Increment ''bb'' [],
                       Do_Write False] w0 of
          Inl e \<Rightarrow> False
        | Inr w \<Rightarrow> written w = [''bb:1|c'' @ [CHR 0x0A] @ ''c''])"
proof -
  obtain w0 where n: "New env0 [MaxBufferSize 8] = Inr w0"
    using New_env0_small by blast
  define w1 where "w1 = Increment env0 ''aaaa'' [] w0"
  define data where "data = (buffer w1)\<lparr>slen := 8\<rparr>"
  define u where "u = w1\<lparr>flushChan := 0, buffer := (buffer w1)\<lparr>slen := 0\<rparr>,
                        bg := Writing data False\<rparr>"
  define w3 where "w3 = Increment env0 ''bb'' [] u"
  note f = first_line [OF n, folded w1_def]
  have r1: "run env0 [Call_Increment ''aaaa'' []] w0 = Inr w1" by (simp add: w1_def)
  have s2: "step env0 Recv_flushChan w1 = Inr u"
    using f(3,9,10) by (simp add: flushMetrics_locked_def Let_def u_def data_def)
  have wfu: "wf_world u"
    using f(2) by (simp add: u_def wf_world_def wf_slice_def)
  have d: "bytes_of data (mem u) = ''aaaa:1|c''"
  proof -
    have "take 8 (arrays (mem w1) (base (buffer w1))) =
            take 8 (take 9 (arrays (mem w1) (base (buffer w1))))" by simp
    then show ?thesis unfolding f(8) by (simp add: bytes_of_def data_def u_def)
  qed
  have du: "data = (buffer u)\<lparr>slen := 8\<rparr>" by (simp add: data_def u_def)
  have uf: "slen (buffer u) = 0" "scap (buffer u) = 16" "slen (tags u) = 0" "prefix u = []"
    "maxBufferSize u = 8"
    "take 9 (arrays (mem u) (base (buffer u))) = ''aaaa:1|c'' @ [CHR 0x0A]"
    using f(4,5,6,7,8) by (simp_all add: u_def)
  have o: "w3 = in_place (''bb:1|c'' @ [CHR 0x0A]) u"
    and b: "bytes_of data (mem w3) = ''bb:1|c'' @ [CHR 0x0A] @ ''c''"
    unfolding w3_def du
    by (rule second_line_overwrites(1) [OF wfu uf], rule second_line_overwrites(2) [OF wfu uf])
  have g3: "bg w3 = Writing data False" "written w3 = []"
    using f(13) by (simp_all add: o in_place_fields u_def)
  have s4: "step env0 (Do_Write False) w3 = Inr ((conn_Write False data w3)\<lparr>bg := AtSelect\<rparr>)"
    by (simp add: g3 Let_def)
  have r2: "run env0 [Call_Increment ''aaaa'' [], Recv_flushChan] w0 = Inr u"
    using s2 by (simp add: w1_def)
  have r4: "run env0 [Call_Increment ''aaaa'' [], Recv_flushChan, Call_Increment ''bb'' [],
                       Do_Write False] w0 = Inr ((conn_Write False data w3)\<lparr>bg := AtSelect\<rparr>)"
    using s2 s4 by (simp add: w1_def [symmetric] w3_def [symmetric])
  have bu: "bg u = Writing data False" "slen (buffer u) = 0" by (simp_all add: u_def)
  have "(case run env0 [Call_Increment ''aaaa'' []] w0 of
          Inl e \<Rightarrow> False
        | Inr w \<Rightarrow> buffered w = ''aaaa:1|c'' @ [CHR 0x0A]) \<and>
       (case run env0 [Call_Increment ''aaaa'' [], Recv_flushChan] w0 of
          Inl e \<Rightarrow> False
        | Inr w \<Rightarrow>
            (case bg w of
               Writing data fin \<Rightarrow> bytes_of data (mem w) = ''aaaa:1|c'' \<and> slen (buffer w) = 0
             | _ \<Rightarrow> False)) \<and>
       (case run env0 [Call_Increment ''aaaa'' [], Recv_flushChan, Call_Increment ''bb'' [],
                       Do_Write False] w0 of
          Inl e \<Rightarrow> False
        | Inr w \<Rightarrow> written w = [''bb:1|c'' @ [CHR 0x0A] @ ''c''])"
    unfolding r1 r2 r4 using f(15) d b g3(2) bu by (simp add: conn_Write_fields)
  then show ?thesis by (simp only: n sum.case)
qed

text \<open>
  C6. \<open>Close\<close> is to cause a final drain-and-send of the residual data, also of data appended
  just before the close request. Same client: \<open>Increment("aaaa")\<close>, then \<open>Close\<close>; the
  goroutine takes the quit case and drains the buffer; a caller's \<open>Increment("bb")\<close> runs
  between that drain and its write; the write is made, the goroutine returns and \<open>Close\<close>
  returns. The one block ever written is \<open>bb:1|c\<close>, the terminator and \<open>c\<close>: the line
  appended before the close request was never handed to the transport.
\<close>

theorem residual_line_lost_at_Close:
  "case New env0 [MaxBufferSize 8] of
     Inl e \<Rightarrow> False
   | Inr w0 \<Rightarrow>
       (case run env0 [Call_Increment ''aaaa'' [], Call_Close] w0 of
          Inl e \<Rightarrow> False
        | Inr w \<Rightarrow> buffered w = ''aaaa:1|c'' @ [CHR 0x0A] \<and> written w = []) \<and>
       (case run env0 [Call_Increment ''aaaa'' [], Call_Close, Recv_quitChan,
                       Call_Increment ''bb'' [], Do_Write False, Return_Close False] w0 of
          Inl e \<Rightarrow> False
        | Inr w \<Rightarrow>
            closeReturned w \<and> bg w = Exited \<and>
            written w = [''bb:1|c'' @ [CHR 0x0A] @ ''c''])"
proof -
  obtain w0 where n: "New env0 [MaxBufferSize 8] = Inr w0"
    using New_env0_small by blast
  define w1 where "w1 = Increment env0 ''aaaa'' [] w0"
  define data where "data = (buffer w1)\<lparr>slen := 8\<rparr>"
  define u where "u = w1\<lparr>quitChan := True, buffer := (buffer w1)\<lparr>slen := 0\<rparr>,
                        bg := Writing data True\<rparr>"
  define w3 where "w3 = Increment env0 ''bb'' [] u"
  define w4 where "w4 = bg_return (conn_Write False data w3)"
  note f = first_line [OF n, folded w1_def]
  have s1: "step env0 Call_Close w1 = Inr (w1\<lparr>quitChan := True\<rparr>)"
    using f(11) by (simp add: Close_signal_def)
  have s2: "step env0 Recv_quitChan (w1\<lparr>quitChan := True\<rparr>) = Inr u"
    using f(3,9) by (simp add: flushMetrics_locked_def Let_def u_def data_def)
  have wfu: "wf_world u"
    using f(2) by (simp add: u_def wf_world_def wf_slice_def)
  have du: "data = (buffer u)\<lparr>slen := 8\<rparr>" by (simp add: data_def u_def)
  have uf: "slen (buffer u) = 0" "scap (buffer u) = 16" "slen (tags u) = 0" "prefix u = []"
    "maxBufferSize u = 8"
    "take 9 (arrays (mem u) (base (buffer u))) = ''aaaa:1|c'' @ [CHR 0x0A]"
    using f(4,5,6,7,8) by (simp_all add: u_def)
  have o: "w3 = in_place (''bb:1|c'' @ [CHR 0x0A]) u"
    and b: "bytes_of data (mem w3) = ''bb:1|c'' @ [CHR 0x0A] @ ''c''"
    unfolding w3_def du
    by (rule second_line_overwrites(1) [OF wfu uf], rule second_line_overwrites(2) [OF wfu uf])
  have g3: "bg w3 = Writing data True" "written w3 = []" "quitChan w3" "wg w3 = 1"
    "\<not> closeReturned w3"
    using f(12,13,14) by (simp_all add: o in_place_fields u_def)
  have s4: "step env0 (Do_Write False) w3 = Inr w4"
    by (simp add: g3 Let_def w4_def)
  have g4: "quitChan w4" "wg w4 = 0" "\<not> closeReturned w4" "bg w4 = Exited"
    "written w4 = [''bb:1|c'' @ [CHR 0x0A] @ ''c'']"
    using g3 b by (simp_all add: w4_def bg_return_fields conn_Write_fields)
  have s5: "step env0 (Return_Close False) w4 = Inr (Close_finish False w4)"
    using g4 by simp
  have r2: "run env0 [Call_Increment ''aaaa'' [], Call_Close] w0 = Inr (w1\<lparr>quitChan := True\<rparr>)"
    using s1 by (simp add: w1_def)
  have r6: "run env0 [Call_Increment ''aaaa'' [], Call_Close, Recv_quitChan,
                       Call_Increment ''bb'' [], Do_Write False, Return_Close False] w0 =
              Inr (Close_finish False w4)"
    using s1 s2 s4 s5 by (simp add: w1_def [symmetric] w3_def [symmetric])
  have b1: "buffered (w1\<lparr>quitChan := True\<rparr>) = ''aaaa:1|c'' @ [CHR 0x0A]"
    using f(15) by (simp add: buffered_def)
  have "(case run env0 [Call_Increment ''aaaa'' [], Call_Close] w0 of
          Inl e \<Rightarrow> False
        | Inr w \<Rightarrow> buffered w = ''aaaa:1|c'' @ [CHR 0x0A] \<and> written w = []) \<and>
       (case run env0 [Call_Increment ''aaaa'' [], Call_Close, Recv_quitChan,
                       Call_Increment ''bb'' [], Do_Write False, Return_Close False] w0 of
          Inl e \<Rightarrow> False
        | Inr w \<Rightarrow>
            closeReturned w \<and> bg w = Exited \<and>
            written w = [''bb:1|c'' @ [CHR 0x0A] @ ''c''])"
    unfolding r2 r6 using b1 f(13) g4 by (simp add: Close_finish_fields)
  then show ?thesis by (simp only: n sum.case)
qed

section \<open>The destination of the tag serializer\<close>

text \<open>
  C2. The serializer is to append the tags to the destination. \<open>serializeTagsTo\<close> appends
  to its own copy of the destination's header and returns nothing. With an empty destination
  of capacity 16 and the tags \<open>env=prod\<close> and \<open>a=b\<close>, the loop's local slice comes to show
  \<open>;env=prod;a=b\<close>, and the destination, as its caller holds it, shows no byte after the
  call.
\<close>

theorem serializeTagsTo_appends_nothing:
  "bytes_of (fst (make_bytes 16 empty_store))
     (serializeTagsTo env0 (fst (make_bytes 16 empty_store))
        [\<lparr>Key = ''env'', Value = ''prod''\<rparr>, \<lparr>Key = ''a'', Value = ''b''\<rparr>]
        (snd (make_bytes 16 empty_store))) = [] \<and>
   bytes_of
     (fst (serializeTagsTo_loop env0 (fst (make_bytes 16 empty_store))
            [\<lparr>Key = ''env'', Value = ''prod''\<rparr>, \<lparr>Key = ''a'', Value = ''b''\<rparr>]
            (snd (make_bytes 16 empty_store))))
     (snd (serializeTagsTo_loop env0 (fst (make_bytes 16 empty_store))
            [\<lparr>Key = ''env'', Value = ''prod''\<rparr>, \<lparr>Key = ''a'', Value = ''b''\<rparr>]
            (snd (make_bytes 16 empty_store)))) = '';env=prod;a=b''"
  using serializeTagsTo_leaves_destination [OF make_bytes_empty(1) [of 16 empty_store],
      where rt = env0
        and tgs = "[\<lparr>Key = ''env'', Value = ''prod''\<rparr>, \<lparr>Key = ''a'', Value = ''b''\<rparr>]"]
    serializeTagsTo_loop_bytes [OF make_bytes_empty(1) [of 16 empty_store],
      where rt = env0
        and tgs = "[\<lparr>Key = ''env'', Value = ''prod''\<rparr>, \<lparr>Key = ''a'', Value = ''b''\<rparr>]"]
  by (simp add: make_bytes_empty render_tags_def fragment_def)

end
